theory Spec2Isabelle
  imports Main "HOL-Library.Sublist" "HOL-Library.Multiset"
begin

section \<open>Data model of the request engine (engine/engine.go, parse.Log)\<close>

text \<open>
  Go \<open>int\<close>, \<open>int64\<close>, \<open>time.Duration\<close> and \<open>time.Time\<close> are modelled by \<open>int\<close>
  (instants and durations in nanoseconds); no counter of the engine comes near
  the 64-bit bound. A \<open>*time.Time\<close> is an \<open>int option\<close>. Go strings are byte
  strings: \<open>string\<close>. Where two Go structs share a field name, the later record
  prefixes it (\<open>LogFS\<close>, \<open>FilePath\<close>, \<open>InstFS\<close>, \<open>SrcFS\<close>, \<open>ReqMeta\<close>, \<open>ReqPath\<close>).
\<close>

record Config =
  ContentBatchSize :: int
  ContentBatchTime :: int
  SearchMaxSize :: int
  CacheExpiration :: int
  ExcludeExtensions :: "string list"
  ExcludeDirs :: "string list"

definition defaultContentBatchSize :: int where
  "defaultContentBatchSize = 2000"

definition defaultContentBatchTime :: int where
  "defaultContentBatchTime = 2 * 1000000000"

definition defaultSearchMaxSize :: int where
  "defaultSearchMaxSize = 5000"

record Log =
  Msg :: string
  Level :: string
  Time :: "int option"
  LogFS :: string
  FileName :: string
  Line :: int
  Offset :: int

record Meta =
  ID :: int
  Action :: string
  FS :: string
  Path :: "string list"

record TimeRange =
  Start :: "int option"
  End :: "int option"

record Request =
  ReqMeta :: Meta
  ReqPath :: "string list"
  Regexp :: string
  FilterSource :: "string list"
  FilterTime :: TimeRange
  filterSourceMap :: "string \<rightharpoonup> bool"

record FileInstance =
  Size :: int
  InstFS :: string

record File =
  Key :: string
  FilePath :: "string list"
  IsDir :: bool
  Instances :: "FileInstance list"

text \<open>
  \<open>Response.Files\<close> is a \<open>[]*File\<close>: a list of addresses of \<open>File\<close> cells in the
  store below. A nil slice and an empty slice are both \<open>[]\<close>.
\<close>

record Response =
  Meta :: Meta
  Lines :: "Log list"
  Files :: "nat list"
  Error :: string
  Finished :: bool

text \<open>
  The heap of the objects that are shared through pointers: the \<open>*Response\<close>
  values held by the tree cache and the \<open>*File\<close> values held by a combiner and by
  tree responses. An address is an index; allocation appends a cell.
\<close>

record store =
  response_cells :: "Response list"
  file_cells :: "File list"

definition new_Response :: "Response \<Rightarrow> store \<Rightarrow> nat \<times> store" where
  "new_Response r s = (length (response_cells s), s\<lparr>response_cells := response_cells s @ [r]\<rparr>)"

definition new_File :: "File \<Rightarrow> store \<Rightarrow> nat \<times> store" where
  "new_File f s = (length (file_cells s), s\<lparr>file_cells := file_cells s @ [f]\<rparr>)"

text \<open>The tree a client reads off a response: its \<open>Files\<close> pointers dereferenced.\<close>

definition tree :: "store \<Rightarrow> Response \<Rightarrow> File list" where
  "tree s r = map (\<lambda>a. file_cells s ! a) (Files r)"

subsection \<open>Collaborators that are not part of the engine\<close>

text \<open>
  The file system behind a source, the parser, the regexp library, the clock and
  the cancellation token are taken as parameters.

  \<^item> \<open>os.FileInfo\<close>: what the engine reads of it.
  \<^item> A walker item is what one \<open>walker.Step()\<close> yields: path, stat, error, and the
    items the walker goes on to yield below it when the caller does not call
    \<open>SkipDir\<close> (none for a plain file or for an item with an error).
  \<^item> An opened file is the sequence of tokens \<open>scanner.Scan()\<close> yields, and whether
    \<open>scanner.Err()\<close> is set when the scan stops.
\<close>

record FileInfo =
  InfoIsDir :: bool
  InfoSize :: int

datatype witem = WItem (wpath: string) (winfo: FileInfo) (werr: bool) (wsub: "witem list")

record ScanFile =
  tokens :: "string list"
  scanErr :: bool

record FileSystem =
  Join :: "string list \<Rightarrow> string"
  Lstat :: "string \<Rightarrow> FileInfo option"
  Open :: "string \<Rightarrow> ScanFile option"
  Walk :: "string \<Rightarrow> witem list"

record Source =
  Name :: string
  SrcFS :: FileSystem

type_synonym regexp = "string \<Rightarrow> bool"

text \<open>
  \<open>regexp.Compile\<close> (\<open>Inl\<close> is the error text), \<open>filepath.Join\<close> and the zero value
  of \<open>parse.Memory\<close>.
\<close>

record 'm extern =
  regexp_Compile :: "string \<Rightarrow> string + regexp"
  filepath_Join :: "string list \<Rightarrow> string"
  new_Memory :: 'm

text \<open>
  What one goroutine observes of its environment: \<open>cancel_after = Some n\<close> says that
  the next \<open>n\<close> calls of \<open>ctx.Err()\<close> return nil and every later one an error
  (\<open>None\<close>: the context is never cancelled); \<open>clock k\<close> is the value of the
  \<open>k\<close>-th next call of \<open>time.Now()\<close>.
\<close>

record env =
  cancel_after :: "nat option"
  clock :: "nat \<Rightarrow> int"

definition ctx_Err :: "env \<Rightarrow> bool \<times> env" where
  "ctx_Err w =
     (case cancel_after w of
        None \<Rightarrow> (False, w)
      | Some 0 \<Rightarrow> (True, w)
      | Some (Suc n) \<Rightarrow> (False, w\<lparr>cancel_after := Some n\<rparr>))"

definition time_Now :: "env \<Rightarrow> int \<times> env" where
  "time_Now w = (clock w 0, w\<lparr>clock := (\<lambda>k. clock w (Suc k))\<rparr>)"

subsection \<open>The handler\<close>

record 'm handler = Config +
  source :: "Source list"
  parse :: "string \<Rightarrow> string \<Rightarrow> 'm \<Rightarrow> Log \<times> 'm"
  excludeDirs :: "string \<rightharpoonup> bool"
  excludeExtensions :: "string \<rightharpoonup> bool"

definition list2Map :: "string list \<Rightarrow> (string \<rightharpoonup> bool)" where
  "list2Map list = foldl (\<lambda>ret s. ret(s \<mapsto> True)) Map.empty list"

definition New :: "Config \<Rightarrow> Source list \<Rightarrow> (string \<Rightarrow> string \<Rightarrow> 'm \<Rightarrow> Log \<times> 'm) \<Rightarrow> 'm handler" where
  "New c0 src parser =
     (let c1 = (if ContentBatchSize c0 = 0 then c0\<lparr>ContentBatchSize := defaultContentBatchSize\<rparr> else c0);
          c2 = (if ContentBatchTime c1 = 0 then c1\<lparr>ContentBatchTime := defaultContentBatchTime\<rparr> else c1);
          c = (if SearchMaxSize c2 = 0 then c2\<lparr>SearchMaxSize := defaultSearchMaxSize\<rparr> else c2)
      in \<lparr>ContentBatchSize = ContentBatchSize c,
          ContentBatchTime = ContentBatchTime c,
          SearchMaxSize = SearchMaxSize c,
          CacheExpiration = CacheExpiration c,
          ExcludeExtensions = ExcludeExtensions c,
          ExcludeDirs = ExcludeDirs c,
          source = src,
          parse = parser,
          excludeDirs = list2Map (ExcludeDirs c),
          excludeExtensions = list2Map (ExcludeExtensions c)\<rparr>)"

definition sourceSet :: "string list \<Rightarrow> (string \<rightharpoonup> bool)" where
  "sourceSet sourceList = foldl (\<lambda>sources node. sources(node \<mapsto> True)) Map.empty sourceList"

definition Init :: "Request \<Rightarrow> Request" where
  "Init r = r\<lparr>filterSourceMap := sourceSet (FilterSource r)\<rparr>"

text \<open>Reading a \<open>map[string]bool\<close>: a missing key reads as \<open>false\<close>.\<close>

definition lookup_bool :: "(string \<rightharpoonup> bool) \<Rightarrow> string \<Rightarrow> bool" where
  "lookup_bool m k = (case m k of Some b \<Rightarrow> b | None \<Rightarrow> False)"

section \<open>The reader (handler.read)\<close>

definition filterOutTime :: "Log \<Rightarrow> TimeRange \<Rightarrow> bool" where
  "filterOutTime line timeRange =
     (case Start timeRange of
        Some start \<Rightarrow> (case Time line of None \<Rightarrow> True | Some t \<Rightarrow> start > t)
      | None \<Rightarrow>
          (case End timeRange of
             Some e \<Rightarrow> (case Time line of None \<Rightarrow> True | Some t \<Rightarrow> e < t)
           | None \<Rightarrow> False))"

text \<open>
  How an iteration of the scan loop ends: it goes on to the next line (also by
  \<open>continue\<close>), or \<open>read\<close> returns from inside the loop.
\<close>

datatype 'a ctl = Continue 'a | Return 'a

fun ctl_state :: "'a ctl \<Rightarrow> 'a" where
  "ctl_state (Continue s) = s"
| "ctl_state (Return s) = s"

text \<open>
  The local variables of \<open>read\<close> that the loop changes, with what the call has
  sent on the channel so far (\<open>sent\<close>, in order) and the environment of its
  goroutine (\<open>world\<close>).
\<close>

record 'm scan_state =
  logLines :: "Log list"
  lastRespTime :: int
  lineNumber :: int
  fileOffset :: int
  sentAny :: bool
  parserMemory :: 'm
  sent :: "Response list"
  world :: env

definition lines_Response :: "Meta \<Rightarrow> Log list \<Rightarrow> Response" where
  "lines_Response respMeta ls =
     \<lparr>Meta = respMeta, Lines = ls, Files = [], Error = [], Finished = False\<rparr>"

text \<open>
  Lines 474-479: the batch is sent when it is longer than \<open>ContentBatchSize\<close> or the
  batch time has passed (\<open>||\<close> reads the clock only when the first test fails).
\<close>

definition flush :: "Meta \<Rightarrow> 'm scan_state \<Rightarrow> 'm scan_state" where
  "flush respMeta st =
     (case time_Now (world st) of
        (now, w) \<Rightarrow>
          st\<lparr>sentAny := True,
             sent := sent st @ [lines_Response respMeta (logLines st)],
             logLines := [],
             lastRespTime := now,
             world := w\<rparr>)"

definition maybe_flush :: "'m handler \<Rightarrow> Meta \<Rightarrow> 'm scan_state \<Rightarrow> 'm scan_state" where
  "maybe_flush h respMeta st =
     (if int (length (logLines st)) > ContentBatchSize h then flush respMeta st
      else
        (case time_Now (world st) of
           (now, w) \<Rightarrow>
             if now - lastRespTime st > ContentBatchTime h
             then flush respMeta (st\<lparr>world := w\<rparr>)
             else st\<lparr>world := w\<rparr>))"

definition no_match :: "regexp option \<Rightarrow> Log \<Rightarrow> bool" where
  "no_match re line = (case re of None \<Rightarrow> False | Some r \<Rightarrow> \<not> r (Msg line))"

text \<open>One iteration of the scan loop (lines 446-483) on the token \<open>bytes\<close>.\<close>

definition scan_body ::
  "'m handler \<Rightarrow> Request \<Rightarrow> Source \<Rightarrow> string \<Rightarrow> regexp option \<Rightarrow> Meta \<Rightarrow> string \<Rightarrow>
   'm scan_state \<Rightarrow> 'm scan_state ctl" where
  "scan_body h req node path re respMeta bytes st =
     (case ctx_Err (world st) of
        (True, w) \<Rightarrow> Return (st\<lparr>world := w\<rparr>)
      | (False, w) \<Rightarrow>
          (case parse h path bytes (parserMemory st) of
             (line0, mem) \<Rightarrow>
               if no_match re line0
               then Continue (st\<lparr>world := w, parserMemory := mem,
                                 lineNumber := lineNumber st + 1,
                                 fileOffset := fileOffset st + int (length bytes)\<rparr>)
               else
                 (let line = line0\<lparr>FileName := path, Offset := fileOffset st,
                                   LogFS := Name node, Line := lineNumber st\<rparr>
                  in if filterOutTime line (FilterTime req)
                     then Continue (st\<lparr>world := w, parserMemory := mem\<rparr>)
                     else
                       (let st1 = maybe_flush h respMeta
                                    (st\<lparr>world := w, parserMemory := mem,
                                        logLines := logLines st @ [line],
                                        lineNumber := lineNumber st + 1,
                                        fileOffset := fileOffset st + int (length bytes)\<rparr>)
                        in if re \<noteq> None \<and> int (length (logLines st1)) > SearchMaxSize h
                           then Return st1
                           else Continue st1))))"

fun scan_loop ::
  "'m handler \<Rightarrow> Request \<Rightarrow> Source \<Rightarrow> string \<Rightarrow> regexp option \<Rightarrow> Meta \<Rightarrow> string list \<Rightarrow>
   'm scan_state \<Rightarrow> 'm scan_state ctl" where
  "scan_loop h req node path re respMeta [] st = Continue st"
| "scan_loop h req node path re respMeta (bytes # rest) st =
     (case scan_body h req node path re respMeta bytes st of
        Return st' \<Rightarrow> Return st'
      | Continue st' \<Rightarrow> scan_loop h req node path re respMeta rest st')"

text \<open>\<open>strings.Split(s, "/")\<close> and \<open>strings.Trim(s, "/")\<close>.\<close>

fun split_sep :: "string \<Rightarrow> string list" where
  "split_sep [] = [[]]"
| "split_sep (c # cs) =
     (if c = CHR ''/'' then [] # split_sep cs
      else (case split_sep cs of [] \<Rightarrow> [[c]] | w # ws \<Rightarrow> (c # w) # ws))"

definition trim_sep :: "string \<Rightarrow> string" where
  "trim_sep s = rev (dropWhile (\<lambda>c. c = CHR ''/'') (rev (dropWhile (\<lambda>c. c = CHR ''/'') s)))"

text \<open>
  Lines 428-443: the response meta of a file; a leading empty segment is dropped.
  \<open>strings.Split\<close> never returns an empty slice, so \<open>respMeta.Path[0]\<close> exists.
\<close>

definition read_Meta :: "Request \<Rightarrow> Source \<Rightarrow> string \<Rightarrow> Meta" where
  "read_Meta req node path =
     (let p = split_sep path
      in \<lparr>ID = ID (ReqMeta req), Action = Action (ReqMeta req), FS = Name node,
          Path = (case p of [] \<Rightarrow> [] | x # xs \<Rightarrow> if x = [] then xs else p)\<rparr>)"

definition scan_init :: "'m extern \<Rightarrow> int \<Rightarrow> env \<Rightarrow> 'm scan_state" where
  "scan_init x t0 w0 =
     \<lparr>logLines = [], lastRespTime = t0, lineNumber = 1, fileOffset = 0, sentAny = False,
      parserMemory = new_Memory x, sent = [], world = w0\<rparr>"

text \<open>
  \<open>read\<close>: nothing is sent when the path is absent, a directory, or does not
  open. After the loop (lines 485-492): nothing more on a scanner error, nor when
  the batch is empty and a batch was sent or a regexp is given; else the batch.
\<close>

definition read ::
  "'m extern \<Rightarrow> 'm handler \<Rightarrow> env \<Rightarrow> Request \<Rightarrow> Source \<Rightarrow> string \<Rightarrow> regexp option \<Rightarrow>
   Response list \<times> env" where
  "read x h w req node path re =
     (case Lstat (SrcFS node) path of
        None \<Rightarrow> ([], w)
      | Some info \<Rightarrow>
          if InfoIsDir info then ([], w)
          else
            (case Open (SrcFS node) path of
               None \<Rightarrow> ([], w)
             | Some r \<Rightarrow>
                 (case time_Now w of
                    (t0, w0) \<Rightarrow>
                      (let respMeta = read_Meta req node path
                       in case scan_loop h req node path re respMeta (tokens r)
                                 (scan_init x t0 w0) of
                            Return st \<Rightarrow> (sent st, world st)
                          | Continue st \<Rightarrow>
                              if scanErr r then (sent st, world st)
                              else if logLines st = [] \<and> (sentAny st \<or> re \<noteq> None)
                              then (sent st, world st)
                              else (sent st @ [lines_Response respMeta (logLines st)],
                                    world st)))))"

section \<open>Walking a source (handler.recurseTree, handler.srcTree)\<close>

text \<open>\<open>filepath.Base\<close> and \<open>filepath.Ext\<close> of the Go library, on slash-separated paths.\<close>

definition filepath_Base :: "string \<Rightarrow> string" where
  "filepath_Base path =
     (if path = [] then ''.''
      else
        (let p = dropWhile (\<lambda>c. c = CHR ''/'') (rev path);
             e = rev (takeWhile (\<lambda>c. c \<noteq> CHR ''/'') p)
         in if e = [] then ''/'' else e))"

definition filepath_Ext :: "string \<Rightarrow> string" where
  "filepath_Ext path =
     (let r = takeWhile (\<lambda>c. c \<noteq> CHR ''/'') (rev path)
      in if CHR ''.'' \<in> set r then CHR ''.'' # rev (takeWhile (\<lambda>c. c \<noteq> CHR ''.'') r) else [])"

text \<open>
  The walker's pending items are a stack. One iteration pops an item; the walker
  descends into it (pushes \<open>wsub\<close>) unless the item has an error, is not a
  directory, or the loop called \<open>SkipDir\<close>. The callback \<open>f\<close> threads the
  goroutine's environment and an accumulator of what it has done.
\<close>

function recurseTree ::
  "'m handler \<Rightarrow> (witem \<Rightarrow> env \<Rightarrow> 'a \<Rightarrow> env \<times> 'a) \<Rightarrow> witem list \<Rightarrow> env \<Rightarrow> 'a \<Rightarrow> env \<times> 'a" where
  "recurseTree h f [] w acc = (w, acc)"
| "recurseTree h f (walker # stack) w acc =
     (case ctx_Err w of
        (True, w') \<Rightarrow> (w', acc)
      | (False, w') \<Rightarrow>
          if werr walker then recurseTree h f stack w' acc
          else if InfoIsDir (winfo walker) then
            (if excludeDirs h (filepath_Base (wpath walker)) \<noteq> None
             then recurseTree h f stack w' acc
             else (case f walker w' acc of
                     (w'', acc') \<Rightarrow> recurseTree h f (wsub walker @ stack) w'' acc'))
          else
            (if excludeExtensions h (filepath_Ext (wpath walker)) \<noteq> None
             then recurseTree h f stack w' acc
             else (case f walker w' acc of
                     (w'', acc') \<Rightarrow> recurseTree h f stack w'' acc')))"
  by pat_completeness auto
termination
proof (relation "measure (\<lambda>(h, f, stack, w, acc). size_list size stack)", goal_cases)
  case (4 h f walker stack w acc)
  show ?case by (cases walker) simp
qed auto

text \<open>
  \<open>srcTree\<close> calls \<open>c.add\<close> on the shared combiner for every entry it keeps. The
  goroutine's result is the sequence of its calls; the combiner applies the calls
  of all goroutines in the order the mutex admits them.
\<close>

definition srcTree_visit ::
  "Source \<Rightarrow> witem \<Rightarrow> env \<Rightarrow> (File \<times> FileInstance) list \<Rightarrow> env \<times> (File \<times> FileInstance) list" where
  "srcTree_visit src walker w calls =
     (let key = trim_sep (wpath walker)
      in if key = [] then (w, calls)
         else (w, calls @
                 [(\<lparr>Key = key, FilePath = split_sep key,
                    IsDir = InfoIsDir (winfo walker), Instances = []\<rparr>,
                   \<lparr>Size = InfoSize (winfo walker), InstFS = Name src\<rparr>)]))"

definition srcTree :: "'m handler \<Rightarrow> env \<Rightarrow> Request \<Rightarrow> Source \<Rightarrow> (File \<times> FileInstance) list" where
  "srcTree h w req src =
     (let path = Join (SrcFS src) (ReqPath req)
      in snd (recurseTree h (srcTree_visit src) (Walk (SrcFS src) path) w []))"

section \<open>The combiner\<close>

text \<open>
  \<open>files\<close> is a \<open>[]*File\<close> and \<open>index\<close> a \<open>map[string]*File\<close>: both hold addresses
  of cells of the store, so an append through \<open>index\<close> is seen through \<open>files\<close>.
\<close>

record combiner =
  files :: "nat list"
  index :: "string \<rightharpoonup> nat"

definition newCombiner :: combiner where
  "newCombiner = \<lparr>files = [], index = Map.empty\<rparr>"

definition append_Instance :: "nat \<Rightarrow> FileInstance \<Rightarrow> store \<Rightarrow> store" where
  "append_Instance p inst s =
     s\<lparr>file_cells := (file_cells s)
         [p := (file_cells s ! p)\<lparr>Instances := Instances (file_cells s ! p) @ [inst]\<rparr>]\<rparr>"

text \<open>
  \<open>c.index[f.Key]\<close> is never nil at the last line of \<open>add\<close> (the branch before it
  stores an address); the \<open>None\<close> case below is that unreachable nil dereference.
\<close>

definition add :: "File \<Rightarrow> FileInstance \<Rightarrow> combiner \<times> store \<Rightarrow> combiner \<times> store" where
  "add f inst cs =
     (case cs of
        (c, s) \<Rightarrow>
          (case (if index c (Key f) = None
                 then (case new_File f s of
                         (a, s') \<Rightarrow>
                           (let fs = files c @ [a]
                            in (c\<lparr>files := fs, index := (index c)(Key f \<mapsto> last fs)\<rparr>, s')))
                 else (c, s)) of
             (c1, s1) \<Rightarrow>
               (case index c1 (Key f) of
                  Some p \<Rightarrow> (c1, append_Instance p inst s1)
                | None \<Rightarrow> (c1, s1))))"

section \<open>Filtering a tree by source (Response.FilterSources, File.FilterSources)\<close>

text \<open>
  Both methods have value receivers: they work on a copy of the struct and return
  the address of that copy, a new cell.
\<close>

definition File_FilterSources :: "File \<Rightarrow> (string \<rightharpoonup> bool) \<Rightarrow> store \<Rightarrow> nat option \<times> store" where
  "File_FilterSources f sources s =
     (let instances = filter (\<lambda>i. lookup_bool sources (InstFS i)) (Instances f)
      in if instances = [] then (None, s)
         else (case new_File (f\<lparr>Instances := instances\<rparr>) s of (a, s') \<Rightarrow> (Some a, s')))"

fun filter_files :: "nat list \<Rightarrow> (string \<rightharpoonup> bool) \<Rightarrow> nat list \<Rightarrow> store \<Rightarrow> nat list \<times> store" where
  "filter_files [] sources fs s = (fs, s)"
| "filter_files (file # rest) sources fs s =
     (case File_FilterSources (file_cells s ! file) sources s of
        (Some a, s') \<Rightarrow> filter_files rest sources (fs @ [a]) s'
      | (None, s') \<Rightarrow> filter_files rest sources fs s')"

definition Response_FilterSources :: "Response \<Rightarrow> (string \<rightharpoonup> bool) \<Rightarrow> store \<Rightarrow> nat \<times> store" where
  "Response_FilterSources r sources s =
     (if dom sources = {} then new_Response r s
      else (case filter_files (Files r) sources [] s of
              (fs, s') \<Rightarrow> new_Response (r\<lparr>Files := fs\<rparr>) s'))"

definition filterSources :: "Source list \<Rightarrow> (string \<rightharpoonup> bool) \<Rightarrow> Source list" where
  "filterSources sources fmap =
     (if dom fmap = {} then sources
      else filter (\<lambda>src. lookup_bool fmap (Name src)) sources)"

section \<open>Fan-out over the sources\<close>

text \<open>
  The goroutines of one request run concurrently and meet at one point each: the
  send on the outbound channel (readers) or the combiner's mutex (walkers). Each
  goroutine is a sequence of such events; a schedule picks, event by event, the
  goroutine that goes next, and what is left when the schedule ends runs in
  order. Every interleaving is the weave of some schedule.
\<close>

fun weave :: "nat list \<Rightarrow> 'a list list \<Rightarrow> 'a list" where
  "weave [] qs = concat qs"
| "weave (i # sched) qs =
     (if i < length qs
      then (case qs ! i of
              [] \<Rightarrow> weave sched qs
            | e # r \<Rightarrow> e # weave sched (qs[i := r]))
      else weave sched qs)"

text \<open>The \<open>i\<close>-th goroutine of a fan-out observes the environment \<open>envs i\<close>.\<close>

definition fan_out :: "(nat \<Rightarrow> env) \<Rightarrow> (env \<Rightarrow> Source \<Rightarrow> 'a list) \<Rightarrow> Source list \<Rightarrow> 'a list list" where
  "fan_out envs g srcs = map (\<lambda>(i, src). g (envs i) src) (enumerate 0 srcs)"

section \<open>The handlers\<close>

type_synonym cache = "string \<rightharpoonup> nat"

definition walk_all :: "'m handler \<Rightarrow> nat list \<Rightarrow> (nat \<Rightarrow> env) \<Rightarrow> Request \<Rightarrow> store \<Rightarrow> combiner \<times> store" where
  "walk_all h sched envs req s =
     foldl (\<lambda>cs (f, inst). add f inst cs) (newCombiner, s)
       (weave sched (fan_out envs (\<lambda>w src. srcTree h w req src) (source h)))"

text \<open>
  \<open>cache.Set\<close> is taken to succeed; an entry that expires is removed by the
  environment between two requests.
\<close>

definition serveTree ::
  "'m extern \<Rightarrow> 'm handler \<Rightarrow> nat list \<Rightarrow> (nat \<Rightarrow> env) \<Rightarrow> Request \<Rightarrow> cache \<times> store \<Rightarrow>
   Response list \<times> cache \<times> store" where
  "serveTree x h sched envs req cs =
     (case cs of
        (cache, s) \<Rightarrow>
          (let cacheKey = filepath_Join x (ReqPath req)
           in case (case cache cacheKey of
                      Some val \<Rightarrow> (val, cache, s)
                    | None \<Rightarrow>
                        (case walk_all h sched envs req s of
                           (c, s') \<Rightarrow>
                             (case new_Response
                                     \<lparr>Meta = ReqMeta req, Lines = [], Files = files c,
                                      Error = [], Finished = False\<rparr> s' of
                                (resp, s'') \<Rightarrow> (resp, cache(cacheKey \<mapsto> resp), s'')))) of
                (resp, cache1, s1) \<Rightarrow>
                  (case Response_FilterSources (response_cells s1 ! resp)
                          (filterSourceMap req) s1 of
                     (resp2, s2) \<Rightarrow>
                       (let r2 = response_cells s2 ! resp2;
                            r3 = r2\<lparr>Meta := (Meta r2)\<lparr>ID := ID (ReqMeta req)\<rparr>\<rparr>;
                            s3 = s2\<lparr>response_cells := (response_cells s2)[resp2 := r3]\<rparr>
                        in ([response_cells s3 ! resp2], cache1, s3)))))"

definition serveContent ::
  "'m extern \<Rightarrow> 'm handler \<Rightarrow> nat list \<Rightarrow> (nat \<Rightarrow> env) \<Rightarrow> Request \<Rightarrow> Response list" where
  "serveContent x h sched envs req =
     weave sched
       (fan_out envs
          (\<lambda>w src. fst (read x h w req src (Join (SrcFS src) (ReqPath req)) None))
          (filterSources (source h) (filterSourceMap req)))"

definition searchNode_visit ::
  "'m extern \<Rightarrow> 'm handler \<Rightarrow> Request \<Rightarrow> Source \<Rightarrow> regexp \<Rightarrow> witem \<Rightarrow> env \<Rightarrow> Response list \<Rightarrow>
   env \<times> Response list" where
  "searchNode_visit x h req node re walker w out =
     (case read x h w req node (wpath walker) (Some re) of (rs, w') \<Rightarrow> (w', out @ rs))"

definition searchNode ::
  "'m extern \<Rightarrow> 'm handler \<Rightarrow> env \<Rightarrow> Request \<Rightarrow> Source \<Rightarrow> string \<Rightarrow> regexp \<Rightarrow> Response list" where
  "searchNode x h w req node path re =
     snd (recurseTree h (searchNode_visit x h req node re) (Walk (SrcFS node) path) w [])"

definition error_Response :: "Request \<Rightarrow> string \<Rightarrow> Response" where
  "error_Response req err =
     \<lparr>Meta = ReqMeta req, Lines = [], Files = [],
      Error = ''Bad regexp '' @ Regexp req @ '': '' @ err, Finished = False\<rparr>"

definition search ::
  "'m extern \<Rightarrow> 'm handler \<Rightarrow> nat list \<Rightarrow> (nat \<Rightarrow> env) \<Rightarrow> Request \<Rightarrow> Response list" where
  "search x h sched envs req =
     (case regexp_Compile x (Regexp req) of
        Inl err \<Rightarrow> [error_Response req err]
      | Inr re \<Rightarrow>
          weave sched
            (fan_out envs
               (\<lambda>w node. searchNode x h w req node (Join (SrcFS node) (ReqPath req)) re)
               (filterSources (source h) (filterSourceMap req))))"

definition finished_Response :: "Request \<Rightarrow> Response" where
  "finished_Response req =
     \<lparr>Meta = ReqMeta req, Lines = [], Files = [], Error = [], Finished = True\<rparr>"

text \<open>
  \<open>serve\<close>: the action's handler, then the terminal marker. (The \<open>ctx.Err()\<close> of
  line 247 only writes a debug log.) The result is what the request sends on the
  outbound channel, in order, and the cache and store it leaves.
\<close>

definition serve ::
  "'m extern \<Rightarrow> 'm handler \<Rightarrow> nat list \<Rightarrow> (nat \<Rightarrow> env) \<Rightarrow> Request \<Rightarrow> cache \<times> store \<Rightarrow>
   Response list \<times> cache \<times> store" where
  "serve x h sched envs req cs =
     (case (if Action (ReqMeta req) = ''get-file-tree'' then serveTree x h sched envs req cs
            else if Action (ReqMeta req) = ''get-content''
            then (serveContent x h sched envs req, cs)
            else if Action (ReqMeta req) = ''search''
            then (search x h sched envs req, cs)
            else ([], cs)) of
        (out, cs') \<Rightarrow> (out @ [finished_Response req], cs'))"

text \<open>The dispatcher's step for one request read from the connection (lines 202-219).\<close>

definition ServeHTTP_request :: 
  "'m extern \<Rightarrow> 'm handler \<Rightarrow> nat list \<Rightarrow> (nat \<Rightarrow> env) \<Rightarrow> Request \<Rightarrow> cache \<times> store \<Rightarrow>
   Response list \<times> cache \<times> store" where
  "ServeHTTP_request x h sched envs req cs = serve x h sched envs (Init req) cs"

section \<open>Specification-side notions\<close>

text \<open>
  The definitions of this section are not part of the engine. They state what
  the claims speak about: the lines a file yields when batching, cancellation
  and the search cap are left aside; the tree a sequence of combiner calls
  yields; the filtered form of a tree; the invariants of the combiner and of the
  tree cache.
\<close>

text \<open>
  The lines a scan has produced so far: those it has sent and those still in its batch.
\<close>

definition emitted :: "'m scan_state \<Rightarrow> Log list" where
  "emitted st = concat (map Lines (sent st)) @ logLines st"

text \<open>
  The lines of a sequence of responses, in the order sent.
\<close>

definition lines_of :: "Response list \<Rightarrow> Log list" where
  "lines_of out = concat (map Lines out)"

text \<open>
  The logs the parser returns along the lines of a file, its memory threaded from line to line.
\<close>

fun parsed :: "'m handler \<Rightarrow> string \<Rightarrow> string list \<Rightarrow> 'm \<Rightarrow> Log list" where
  "parsed h path [] mem = []"
| "parsed h path (bytes # rest) mem =
     (case parse h path bytes mem of (line0, mem') \<Rightarrow> line0 # parsed h path rest mem')"

text \<open>
  The lines a file yields when it is read to its end, in the words of the
  per-line steps of the reader: a line whose message fails the regexp is counted
  and skipped; a line the time filter drops is skipped and not counted; any
  other line is stamped with file name, source, line number and offset, and
  counted. There is no batch, no cancellation and no cap here; \<open>n\<close> and \<open>off\<close>
  are the line number and the offset of the next line.
\<close>

fun spec_lines ::
  "'m handler \<Rightarrow> Request \<Rightarrow> Source \<Rightarrow> string \<Rightarrow> regexp option \<Rightarrow> string list \<Rightarrow> 'm \<Rightarrow> int \<Rightarrow> int \<Rightarrow> Log list" where
  "spec_lines h req node path re [] mem n off = []"
| "spec_lines h req node path re (bytes # rest) mem n off =
     (case parse h path bytes mem of
        (line0, mem') \<Rightarrow>
          if no_match re line0
          then spec_lines h req node path re rest mem' (n + 1) (off + int (length bytes))
          else
            (let line = line0\<lparr>FileName := path, Offset := off, LogFS := Name node, Line := n\<rparr>
             in if filterOutTime line (FilterTime req)
                then spec_lines h req node path re rest mem' n off
                else line # spec_lines h req node path re rest mem' (n + 1) (off + int (length bytes))))"

text \<open>
  The same for the file at a path of a source: nothing when it is absent, a directory, or does not open.
\<close>

definition file_lines ::
  "'m extern \<Rightarrow> 'm handler \<Rightarrow> Request \<Rightarrow> Source \<Rightarrow> string \<Rightarrow> regexp option \<Rightarrow> Log list" where
  "file_lines x h req node path re =
     (case Lstat (SrcFS node) path of
        None \<Rightarrow> []
      | Some info \<Rightarrow>
          if InfoIsDir info then []
          else (case Open (SrcFS node) path of
                  None \<Rightarrow> []
                | Some r \<Rightarrow> spec_lines h req node path re (tokens r) (new_Memory x) 1 0))"

text \<open>
  A condition under which the test of the search cap is never true: no regexp, or a batch size that does not exceed a non-negative cap.
\<close>

definition cap_idle :: "'m handler \<Rightarrow> regexp option \<Rightarrow> bool" where
  "cap_idle h re \<longleftrightarrow> re = None \<or> (ContentBatchSize h \<le> SearchMaxSize h \<and> 0 \<le> SearchMaxSize h)"

definition add_Instance :: "FileInstance \<Rightarrow> File \<Rightarrow> File" where
  "add_Instance inst g = g\<lparr>Instances := Instances g @ [inst]\<rparr>"

text \<open>
  The tree a sequence of combiner calls yields, in the words of the tree
  handler: the first call with a key appends a new file; every call appends its
  instance to the file of its key.
\<close>

definition combine_add :: "File \<times> FileInstance \<Rightarrow> File list \<Rightarrow> File list" where
  "combine_add call T =
     (case call of
        (f, inst) \<Rightarrow>
          if Key f \<in> Key ` set T
          then map (\<lambda>g. if Key g = Key f then add_Instance inst g else g) T
          else T @ [add_Instance inst f])"

definition combine :: "(File \<times> FileInstance) list \<Rightarrow> File list" where
  "combine calls = foldl (\<lambda>T call. combine_add call T) [] calls"

text \<open>
  The tree the walks of one request build, under a schedule and the environments of its goroutines.
\<close>

definition merged_tree :: "'m handler \<Rightarrow> nat list \<Rightarrow> (nat \<Rightarrow> env) \<Rightarrow> Request \<Rightarrow> File list" where
  "merged_tree h sched envs req =
     combine (weave sched (fan_out envs (\<lambda>w src. srcTree h w req src) (source h)))"

text \<open>
  What the walk of the \<open>i\<close>-th source hands to the combiner, and the keys among it.
\<close>

definition walked :: "'m handler \<Rightarrow> (nat \<Rightarrow> env) \<Rightarrow> Request \<Rightarrow> nat \<Rightarrow> (File \<times> FileInstance) list" where
  "walked h envs req i = srcTree h (envs i) req (source h ! i)"

definition walked_keys :: "'m handler \<Rightarrow> (nat \<Rightarrow> env) \<Rightarrow> Request \<Rightarrow> nat \<Rightarrow> string set" where
  "walked_keys h envs req i = (\<lambda>c. Key (fst c)) ` set (walked h envs req i)"

text \<open>
  A source passes \<open>filter_fs\<close>: the filter is empty or has the name of the source.
\<close>

definition selected :: "string list \<Rightarrow> Source \<Rightarrow> bool" where
  "selected filter_fs src \<longleftrightarrow> filter_fs = [] \<or> Name src \<in> set filter_fs"

text \<open>
  The filtered form of a tree: in each file the instances whose source the
  filter has; files left without instances dropped; the tree itself when the
  filter is empty.
\<close>

definition keep_Instances :: "(string \<rightharpoonup> bool) \<Rightarrow> File \<Rightarrow> FileInstance list" where
  "keep_Instances F g = filter (\<lambda>i. lookup_bool F (InstFS i)) (Instances g)"

definition kept_files :: "(string \<rightharpoonup> bool) \<Rightarrow> File list \<Rightarrow> File list" where
  "kept_files F T =
     map (\<lambda>g. g\<lparr>Instances := keep_Instances F g\<rparr>) (filter (\<lambda>g. keep_Instances F g \<noteq> []) T)"

definition filter_tree :: "(string \<rightharpoonup> bool) \<Rightarrow> File list \<Rightarrow> File list" where
  "filter_tree F T = (if dom F = {} then T else kept_files F T)"

text \<open>
  The response a request stores in the cache, and a response with the id of a request.
\<close>

definition tree_Response :: "Request \<Rightarrow> nat list \<Rightarrow> Response" where
  "tree_Response req fs = \<lparr>Meta = ReqMeta req, Lines = [], Files = fs, Error = [], Finished = False\<rparr>"

definition with_ID :: "Request \<Rightarrow> Response \<Rightarrow> Response" where
  "with_ID req r = r\<lparr>Meta := (Meta r)\<lparr>ID := ID (ReqMeta req)\<rparr>\<rparr>"

text \<open>
  The combiner's invariant over a store that started as \<open>s0\<close>: the cells it has
  allocated are the tree \<open>T\<close>, \<open>files\<close> holds their addresses in order, \<open>index\<close>
  maps each key to the address of its file, and no other cell has changed.
\<close>

definition index_inv :: "nat \<Rightarrow> File list \<Rightarrow> (string \<rightharpoonup> nat) \<Rightarrow> bool" where
  "index_inv n T ix \<longleftrightarrow>
     (\<forall>k a. ix k = Some a \<longleftrightarrow> (\<exists>i < length T. a = n + i \<and> Key (T ! i) = k))"

definition combiner_inv :: "store \<Rightarrow> File list \<Rightarrow> combiner \<times> store \<Rightarrow> bool" where
  "combiner_inv s0 T cs \<longleftrightarrow>
     response_cells (snd cs) = response_cells s0 \<and>
     file_cells (snd cs) = file_cells s0 @ T \<and>
     files (fst cs) = [length (file_cells s0) ..< length (file_cells s0) + length T] \<and>
     distinct (map Key T) \<and>
     index_inv (length (file_cells s0)) T (index (fst cs))"

text \<open>
  The invariant of the tree cache: every entry is the address of an unfinished response whose files are allocated.
\<close>

definition cache_ok :: "cache \<Rightarrow> store \<Rightarrow> bool" where
  "cache_ok cache s \<longleftrightarrow>
     (\<forall>k a. cache k = Some a \<longrightarrow>
        a < length (response_cells s) \<and>
        \<not> Finished (response_cells s ! a) \<and>
        (\<forall>p \<in> set (Files (response_cells s ! a)). p < length (file_cells s)))"

text \<open>
  The tree of the first response a request has sent, read in the store the request leaves.
\<close>

definition sent_tree :: "Response list \<times> cache \<times> store \<Rightarrow> File list" where
  "sent_tree res = tree (snd (snd res)) (hd (fst res))"

subsection \<open>Fixtures\<close>

text \<open>
  A small registry at which the theorems are instantiated: parsers that take the
  line as the message (with no time, or with the length of the line as its
  time), file systems with a root directory and plain files, a regexp library
  that rejects \<open>(\<close> and otherwise matches the messages equal to the pattern, the
  configuration with every option left at zero (so that \<open>New\<close> sets the
  defaults), the same with the extension \<open>.gz\<close> excluded, and environments with a
  constant clock.
\<close>

definition raw_parse :: "string \<Rightarrow> string \<Rightarrow> unit \<Rightarrow> Log \<times> unit" where
  "raw_parse path bytes mem =
     (\<lparr>Msg = bytes, Level = [], Time = None, LogFS = [], FileName = [], Line = 0, Offset = 0\<rparr>, mem)"

definition timed_parse :: "string \<Rightarrow> string \<Rightarrow> unit \<Rightarrow> Log \<times> unit" where
  "timed_parse path bytes mem =
     (\<lparr>Msg = bytes, Level = [], Time = Some (int (length bytes)), LogFS = [], FileName = [],
       Line = 0, Offset = 0\<rparr>, mem)"

definition fixture_fs :: "ScanFile \<Rightarrow> FileSystem" where
  "fixture_fs f =
     \<lparr>Join = concat,
      Lstat = (\<lambda>p. if p = ''app.log'' then Some \<lparr>InfoIsDir = False, InfoSize = 7\<rparr>
                   else if p = [] then Some \<lparr>InfoIsDir = True, InfoSize = 0\<rparr> else None),
      Open = (\<lambda>p. if p = ''app.log'' then Some f else None),
      Walk = (\<lambda>p. [WItem [] \<lparr>InfoIsDir = True, InfoSize = 0\<rparr> False
                     [WItem ''app.log'' \<lparr>InfoIsDir = False, InfoSize = 7\<rparr> False []]])\<rparr>"

definition fixture_node :: "ScanFile \<Rightarrow> Source" where
  "fixture_node f = \<lparr>Name = ''node1'', SrcFS = fixture_fs f\<rparr>"

definition fixture_extern :: "unit extern" where
  "fixture_extern =
     \<lparr>regexp_Compile = (\<lambda>s. if s = ''('' then Inl ''missing closing )'' else Inr (\<lambda>msg. msg = s)),
      filepath_Join = concat,
      new_Memory = ()\<rparr>"

definition zero_Config :: Config where
  "zero_Config =
     \<lparr>ContentBatchSize = 0, ContentBatchTime = 0, SearchMaxSize = 0, CacheExpiration = 0,
      ExcludeExtensions = [], ExcludeDirs = []\<rparr>"

definition never_cancelled :: env where
  "never_cancelled = \<lparr>cancel_after = None, clock = (\<lambda>k. 0)\<rparr>"

definition cancelled_after :: "nat \<Rightarrow> env" where
  "cancelled_after n = \<lparr>cancel_after = Some n, clock = (\<lambda>k. 0)\<rparr>"

definition fixture_request :: "string \<Rightarrow> Request" where
  "fixture_request a =
     \<lparr>ReqMeta = \<lparr>ID = 9, Action = a, FS = [], Path = []\<rparr>, ReqPath = [''app.log''],
      Regexp = [], FilterSource = [], FilterTime = \<lparr>Start = None, End = None\<rparr>,
      filterSourceMap = Map.empty\<rparr>"

definition two_lines :: ScanFile where
  "two_lines = \<lparr>tokens = [''first'', ''second''], scanErr = False\<rparr>"

definition torn_line :: ScanFile where
  "torn_line = \<lparr>tokens = [''first''], scanErr = True\<rparr>"

definition empty_file :: ScanFile where
  "empty_file = \<lparr>tokens = [], scanErr = False\<rparr>"

definition old_only :: ScanFile where
  "old_only = \<lparr>tokens = [''old'', ''bad''], scanErr = False\<rparr>"

definition since_4 :: Request where
  "since_4 = (fixture_request ''get-content'')\<lparr>FilterTime := \<lparr>Start = Some 4, End = None\<rparr>\<rparr>"

definition old_then_new :: ScanFile where
  "old_then_new = \<lparr>tokens = [''old'', ''newer''], scanErr = False\<rparr>"

definition files_fs :: "string list \<Rightarrow> FileSystem" where
  "files_fs names =
     \<lparr>Join = concat,
      Lstat = (\<lambda>p. if p \<in> set names then Some \<lparr>InfoIsDir = False, InfoSize = 7\<rparr>
                   else if p = [] then Some \<lparr>InfoIsDir = True, InfoSize = 0\<rparr> else None),
      Open = (\<lambda>p. if p \<in> set names then Some \<lparr>tokens = [''first'', ''second''], scanErr = False\<rparr>
                  else None),
      Walk = (\<lambda>p. [WItem [] \<lparr>InfoIsDir = True, InfoSize = 0\<rparr> False
                     (map (\<lambda>n. WItem n \<lparr>InfoIsDir = False, InfoSize = 7\<rparr> False []) names)])\<rparr>"

definition two_nodes :: "Source list" where
  "two_nodes =
     [\<lparr>Name = ''node1'', SrcFS = files_fs [''app.log'']\<rparr>,
      \<lparr>Name = ''node2'', SrcFS = files_fs [''app.log'', ''b.log'']\<rparr>]"

definition tree_request :: "string list \<Rightarrow> Request" where
  "tree_request filter_fs =
     \<lparr>ReqMeta = \<lparr>ID = 9, Action = ''get-file-tree'', FS = [], Path = []\<rparr>, ReqPath = [],
      Regexp = [], FilterSource = filter_fs, FilterTime = \<lparr>Start = None, End = None\<rparr>,
      filterSourceMap = Map.empty\<rparr>"

definition empty_store :: store where
  "empty_store = \<lparr>response_cells = [], file_cells = []\<rparr>"

definition bad_search :: Request where
  "bad_search = (fixture_request ''search'')\<lparr>Regexp := ''(''\<rparr>"

definition good_search :: Request where
  "good_search = (fixture_request ''search'')\<lparr>Regexp := ''second'', ReqPath := []\<rparr>"

definition old_torn :: ScanFile where
  "old_torn = \<lparr>tokens = [''old''], scanErr = True\<rparr>"

definition gz_Config :: Config where
  "gz_Config = zero_Config\<lparr>ExcludeExtensions := [''.gz'']\<rparr>"

definition gz_nodes :: "Source list" where
  "gz_nodes =
     [\<lparr>Name = ''node1'', SrcFS = files_fs [''app.log'']\<rparr>,
      \<lparr>Name = ''node2'', SrcFS = files_fs [''app.log'', ''b.log'', ''c.gz'']\<rparr>]"

section \<open>Lemmas\<close>

subsection \<open>The reader against its specification\<close>

lemma flush_fields:
  "emitted (flush m st) = emitted st"
  "lineNumber (flush m st) = lineNumber st"
  "fileOffset (flush m st) = fileOffset st"
  "parserMemory (flush m st) = parserMemory st"
  "logLines (flush m st) = []"
  "sentAny (flush m st)"
  "sent (flush m st) = sent st @ [lines_Response m (logLines st)]"
  "cancel_after (world (flush m st)) = cancel_after (world st)"
  by (simp_all add: flush_def emitted_def lines_Response_def time_Now_def split: prod.splits)

lemma maybe_flush_fields:
  "emitted (maybe_flush h m st) = emitted st"
  "lineNumber (maybe_flush h m st) = lineNumber st"
  "fileOffset (maybe_flush h m st) = fileOffset st"
  "parserMemory (maybe_flush h m st) = parserMemory st"
  "cancel_after (world (maybe_flush h m st)) = cancel_after (world st)"
  by (simp_all add: maybe_flush_def flush_fields time_Now_def split: prod.splits, simp_all add: emitted_def flush_def lines_Response_def time_Now_def split: prod.splits)

lemma maybe_flush_sent:
  "sent (maybe_flush h m st) = sent st \<and> logLines (maybe_flush h m st) = logLines st
     \<and> sentAny (maybe_flush h m st) = sentAny st
   \<or> sent (maybe_flush h m st) = sent st @ [lines_Response m (logLines st)]
     \<and> logLines (maybe_flush h m st) = [] \<and> sentAny (maybe_flush h m st)"
  by (simp add: maybe_flush_def flush_def time_Now_def split: prod.splits)

lemma maybe_flush_bound:
  "logLines (maybe_flush h m st) = [] \<or> int (length (logLines (maybe_flush h m st))) \<le> ContentBatchSize h"
  by (simp add: maybe_flush_def flush_def time_Now_def split: prod.splits)

lemma ctx_Err_None: "cancel_after w = None \<Longrightarrow> ctx_Err w = (False, w)"
  by (simp add: ctx_Err_def)

text \<open>One iteration against the specification.\<close>

lemma scan_body_Continue:
  assumes "scan_body h req node path re m bytes st = Continue st'"
  shows "emitted st @ spec_lines h req node path re (bytes # rest) (parserMemory st) (lineNumber st) (fileOffset st)
       = emitted st' @ spec_lines h req node path re rest (parserMemory st') (lineNumber st') (fileOffset st')"
  using assms
  by (auto simp: scan_body_def Let_def maybe_flush_fields split: prod.splits if_splits bool.splits)
     (simp_all add: emitted_def)

lemma scan_body_Return:
  assumes "scan_body h req node path re m bytes st = Return st'"
  shows "prefix (emitted st') (emitted st @ spec_lines h req node path re (bytes # rest) (parserMemory st) (lineNumber st) (fileOffset st))"
  using assms
  by (auto simp: scan_body_def Let_def maybe_flush_fields split: prod.splits if_splits bool.splits)
     (simp_all add: emitted_def)

lemma scan_loop_Continue:
  "scan_loop h req node path re m xs st = Continue st' \<Longrightarrow>
   emitted st' = emitted st @ spec_lines h req node path re xs (parserMemory st) (lineNumber st) (fileOffset st)"
proof (induction xs arbitrary: st)
  case Nil
  then show ?case by simp
next
  case (Cons b xs)
  from Cons.prems obtain st1 where
    b: "scan_body h req node path re m b st = Continue st1" and
    l: "scan_loop h req node path re m xs st1 = Continue st'"
    by (auto split: ctl.splits)
  from Cons.IH [OF l] scan_body_Continue [OF b, of xs] show ?case by simp
qed

lemma scan_loop_prefix:
  "prefix (emitted (ctl_state (scan_loop h req node path re m xs st)))
     (emitted st @ spec_lines h req node path re xs (parserMemory st) (lineNumber st) (fileOffset st))"
proof (induction xs arbitrary: st)
  case Nil
  then show ?case by simp
next
  case (Cons b xs)
  show ?case
  proof (cases "scan_body h req node path re m b st")
    case (Continue st1)
    with Cons.IH [of st1] scan_body_Continue [OF Continue, of xs] show ?thesis by simp
  next
    case (Return st1)
    with scan_body_Return [OF Return, of xs] show ?thesis by simp
  qed
qed

lemma sent_prefix_emitted: "prefix (concat (map Lines (sent st))) (emitted st)"
  by (simp add: emitted_def)

lemma scan_body_runs:
  assumes "cancel_after (world st) = None" "cap_idle h re"
  shows "\<exists>st'. scan_body h req node path re m bytes st = Continue st' \<and> cancel_after (world st') = None"
proof -
  have c: "ctx_Err (world st) = (False, world st)" using assms(1) by (rule ctx_Err_None)
  obtain line0 mem where p: "parse h path bytes (parserMemory st) = (line0, mem)" by (cases "parse h path bytes (parserMemory st)")
  show ?thesis
  proof (cases "no_match re line0")
    case True
    then show ?thesis using c p assms(1) by (simp add: scan_body_def)
  next
    case nm: False
    let ?line = "line0\<lparr>FileName := path, Offset := fileOffset st, LogFS := Name node, Line := lineNumber st\<rparr>"
    show ?thesis
    proof (cases "filterOutTime ?line (FilterTime req)")
      case True
      then show ?thesis using c p nm assms(1) by (simp add: scan_body_def)
    next
      case False
      let ?st0 = "st\<lparr>world := world st, parserMemory := mem,
                                        logLines := logLines st @ [?line],
                                        lineNumber := lineNumber st + 1,
                                        fileOffset := fileOffset st + int (length bytes)\<rparr>"
      let ?st1 = "maybe_flush h m ?st0"
      have b: "\<not> (re \<noteq> None \<and> int (length (logLines ?st1)) > SearchMaxSize h)"
        using maybe_flush_bound [of h m ?st0] assms(2) by (auto simp: cap_idle_def)
      have w: "cancel_after (world ?st1) = None" using assms(1) by (simp add: maybe_flush_fields)
      have "scan_body h req node path re m bytes st = Continue ?st1"
        using c p nm False b unfolding scan_body_def Let_def by simp
      with w show ?thesis by blast
    qed
  qed
qed

lemma scan_loop_runs:
  "cancel_after (world st) = None \<Longrightarrow> cap_idle h re \<Longrightarrow>
   \<exists>st'. scan_loop h req node path re m xs st = Continue st' \<and> cancel_after (world st') = None"
proof (induction xs arbitrary: st)
  case Nil
  then show ?case by simp
next
  case (Cons b xs)
  from scan_body_runs [OF Cons.prems, of req node path m b] obtain st1 where
    s: "scan_body h req node path re m b st = Continue st1" "cancel_after (world st1) = None" by blast
  from Cons.IH [OF s(2) Cons.prems(2)] s(1) show ?case by simp
qed

lemma scan_init_fields:
  "emitted (scan_init x t0 w0) = []"
  "parserMemory (scan_init x t0 w0) = new_Memory x"
  "lineNumber (scan_init x t0 w0) = 1"
  "fileOffset (scan_init x t0 w0) = 0"
  "world (scan_init x t0 w0) = w0"
  "sent (scan_init x t0 w0) = []"
  "logLines (scan_init x t0 w0) = []"
  "sentAny (scan_init x t0 w0) = False"
  by (simp_all add: scan_init_def emitted_def)

lemma read_prefix:
  "prefix (lines_of (fst (read x h w req node path re))) (file_lines x h req node path re)"
proof (cases "\<exists>info r. Lstat (SrcFS node) path = Some info \<and> \<not> InfoIsDir info \<and> Open (SrcFS node) path = Some r")
  case False
  then show ?thesis by (auto simp: read_def lines_of_def split: option.splits)
next
  case True
  then obtain info r where o: "Lstat (SrcFS node) path = Some info" "\<not> InfoIsDir info" "Open (SrcFS node) path = Some r" by blast
  obtain t0 w0 where t: "time_Now w = (t0, w0)" by (cases "time_Now w")
  let ?m = "read_Meta req node path"
  let ?res = "scan_loop h req node path re ?m (tokens r) (scan_init x t0 w0)"
  have p: "prefix (emitted (ctl_state ?res)) (file_lines x h req node path re)"
    using scan_loop_prefix [of h req node path re ?m "tokens r" "scan_init x t0 w0"] o
    by (simp add: file_lines_def scan_init_fields)
  have s: "prefix (concat (map Lines (sent (ctl_state ?res)))) (file_lines x h req node path re)"
    using p sent_prefix_emitted prefix_order.trans by blast
  show ?thesis
  proof (cases ?res)
    case (Return st)
    then show ?thesis using o t s by (simp add: read_def lines_of_def)
  next
    case (Continue st)
    then show ?thesis using o t s p by (auto simp: read_def lines_of_def emitted_def lines_Response_def)
  qed
qed

lemma read_complete:
  assumes "cancel_after w = None" "cap_idle h re"
    and "\<And>r. Open (SrcFS node) path = Some r \<Longrightarrow> \<not> scanErr r"
  shows "lines_of (fst (read x h w req node path re)) = file_lines x h req node path re"
proof (cases "\<exists>info r. Lstat (SrcFS node) path = Some info \<and> \<not> InfoIsDir info \<and> Open (SrcFS node) path = Some r")
  case False
  then show ?thesis by (auto simp: read_def file_lines_def lines_of_def split: option.splits)
next
  case True
  then obtain info r where o: "Lstat (SrcFS node) path = Some info" "\<not> InfoIsDir info" "Open (SrcFS node) path = Some r" by blast
  obtain t0 w0 where t: "time_Now w = (t0, w0)" by (cases "time_Now w")
  have w0: "cancel_after w0 = None" using t assms(1) by (auto simp: time_Now_def)
  let ?m = "read_Meta req node path"
  from scan_loop_runs [of "scan_init x t0 w0" h re req node path ?m "tokens r"] w0 assms(2)
  obtain st where st: "scan_loop h req node path re ?m (tokens r) (scan_init x t0 w0) = Continue st"
    by (auto simp: scan_init_fields)
  have e: "emitted st = file_lines x h req node path re"
    using scan_loop_Continue [OF st] o by (simp add: file_lines_def scan_init_fields)
  show ?thesis using o t st e assms(3) [OF o(3)]
    by (auto simp: read_def lines_of_def emitted_def lines_Response_def)
qed

lemma filterOutTime_stamp:
  "filterOutTime (l\<lparr>FileName := a, Offset := b, LogFS := c, Line := d\<rparr>) tr = filterOutTime l tr"
  by (simp add: filterOutTime_def split: option.splits)

lemma spec_lines_numbered:
  "i < length (spec_lines h req node path None xs mem n off) \<Longrightarrow>
   Line (spec_lines h req node path None xs mem n off ! i) = n + int i"
proof (induction xs arbitrary: mem n off i)
  case Nil
  then show ?case by simp
next
  case (Cons b xs)
  obtain l0 m' where p: "parse h path b mem = (l0, m')" by (cases "parse h path b mem")
  show ?case
  proof (cases "filterOutTime l0 (FilterTime req)")
    case True
    with Cons p show ?thesis by (simp add: no_match_def filterOutTime_stamp)
  next
    case False
    with Cons p show ?thesis
      by (cases i) (simp_all add: no_match_def filterOutTime_stamp)
  qed
qed

lemma spec_lines_offsets:
  "sorted (map Offset (spec_lines h req node path re xs mem n off)) \<and>
   (\<forall>l \<in> set (spec_lines h req node path re xs mem n off). off \<le> Offset l)"
proof (induction xs arbitrary: mem n off)
  case Nil
  then show ?case by simp
next
  case (Cons b xs)
  obtain l0 m' where p: "parse h path b mem = (l0, m')" by (cases "parse h path b mem")
  have a: "\<forall>l \<in> set (spec_lines h req node path re xs m' (n + 1) (off + int (length b))). off \<le> Offset l"
    using Cons [of m' "n + 1" "off + int (length b)"] by force
  show ?case using p a Cons [of m' n off] Cons [of m' "n + 1" "off + int (length b)"]
    by (simp add: Let_def)
qed

lemma spec_lines_match:
  "l \<in> set (spec_lines h req node path (Some r) xs mem n off) \<Longrightarrow> r (Msg l)"
proof (induction xs arbitrary: mem n off)
  case Nil
  then show ?case by simp
next
  case (Cons b xs)
  obtain l0 m' where p: "parse h path b mem = (l0, m')" by (cases "parse h path b mem")
  from Cons.prems p Cons.IH show ?case
    by (auto simp: Let_def no_match_def split: if_splits)
qed

lemma spec_lines_length:
  "\<forall>l \<in> set (parsed h path xs mem). \<not> no_match re l \<and> \<not> filterOutTime l (FilterTime req) \<Longrightarrow>
   length (spec_lines h req node path re xs mem n off) = length xs"
proof (induction xs arbitrary: mem n off)
  case Nil
  then show ?case by simp
next
  case (Cons b xs)
  obtain l0 m' where p: "parse h path b mem = (l0, m')" by (cases "parse h path b mem")
  from Cons.prems p Cons.IH [of m'] show ?case
    by (simp add: Let_def filterOutTime_stamp)
qed

lemma spec_lines_no_match:
  "\<forall>l \<in> set (parsed h path xs mem). no_match re l \<Longrightarrow>
   spec_lines h req node path re xs mem n off = []"
proof (induction xs arbitrary: mem n off)
  case Nil
  then show ?case by simp
next
  case (Cons b xs)
  obtain l0 m' where p: "parse h path b mem = (l0, m')" by (cases "parse h path b mem")
  from Cons.prems p Cons.IH [of m'] show ?case by simp
qed

text \<open>A scan whose lines are all skipped sends nothing and batches nothing.\<close>

lemma scan_body_silent:
  assumes "spec_lines h req node path re (b # xs) (parserMemory st) (lineNumber st) (fileOffset st) = []"
  shows "sent (ctl_state (scan_body h req node path re m b st)) = sent st \<and>
         logLines (ctl_state (scan_body h req node path re m b st)) = logLines st \<and>
         sentAny (ctl_state (scan_body h req node path re m b st)) = sentAny st \<and>
         (\<forall>st'. scan_body h req node path re m b st = Continue st' \<longrightarrow>
            spec_lines h req node path re xs (parserMemory st') (lineNumber st') (fileOffset st') = [])"
  using assms
  by (auto simp: scan_body_def Let_def split: prod.splits if_splits bool.splits)

lemma scan_loop_silent:
  "spec_lines h req node path re xs (parserMemory st) (lineNumber st) (fileOffset st) = [] \<Longrightarrow>
   sent (ctl_state (scan_loop h req node path re m xs st)) = sent st \<and>
   logLines (ctl_state (scan_loop h req node path re m xs st)) = logLines st \<and>
   sentAny (ctl_state (scan_loop h req node path re m xs st)) = sentAny st"
proof (induction xs arbitrary: st)
  case Nil
  then show ?case by simp
next
  case (Cons b xs)
  note s = scan_body_silent [OF Cons.prems, of m]
  show ?case
  proof (cases "scan_body h req node path re m b st")
    case (Continue st1)
    with s Cons.IH [of st1] show ?thesis by simp
  next
    case (Return st1)
    with s show ?thesis by simp
  qed
qed

lemma New_zero_fields:
  "ContentBatchSize (New zero_Config srcs p) = 2000"
  "ContentBatchTime (New zero_Config srcs p) = 2000000000"
  "SearchMaxSize (New zero_Config srcs p) = 5000"
  "parse (New zero_Config srcs p) = p"
  "source (New zero_Config srcs p) = srcs"
  by (simp_all add: New_def zero_Config_def defaultContentBatchSize_def
      defaultContentBatchTime_def defaultSearchMaxSize_def Let_def)

lemma prefix_nth: "prefix xs ys \<Longrightarrow> i < length xs \<Longrightarrow> xs ! i = ys ! i"
  by (auto simp: prefix_def nth_append)

lemma prefix_sorted_map: "prefix xs ys \<Longrightarrow> sorted (map f ys) \<Longrightarrow> sorted (map f xs)"
  by (auto simp: prefix_def sorted_append)

lemma file_lines_open:
  "Lstat (SrcFS node) path = Some info \<Longrightarrow> \<not> InfoIsDir info \<Longrightarrow> Open (SrcFS node) path = Some f \<Longrightarrow>
   file_lines x h req node path re = spec_lines h req node path re (tokens f) (new_Memory x) 1 0"
  by (simp add: file_lines_def)

lemma file_lines_sorted: "sorted (map Offset (file_lines x h req node path re))"
  by (simp add: file_lines_def spec_lines_offsets [THEN conjunct1] split: option.splits)

lemma file_lines_numbered:
  "i < length (file_lines x h req node path None) \<Longrightarrow> Line (file_lines x h req node path None ! i) = 1 + int i"
  by (auto simp: file_lines_def spec_lines_numbered split: option.splits if_splits)

lemma fixture_open:
  "Lstat (SrcFS (fixture_node f)) ''app.log'' = Some \<lparr>InfoIsDir = False, InfoSize = 7\<rparr>"
  "Open (SrcFS (fixture_node f)) ''app.log'' = Some f"
  "Name (fixture_node f) = ''node1''"
  by (simp_all add: fixture_node_def fixture_fs_def)

lemmas read_eval =
  read_def fixture_open time_Now_def ctx_Err_def scan_init_def scan_body_def maybe_flush_def
  flush_def lines_Response_def read_Meta_def no_match_def filterOutTime_def Let_def
  New_zero_fields never_cancelled_def cancelled_after_def fixture_request_def fixture_extern_def
  raw_parse_def timed_parse_def lines_of_def

lemma spec_lines_all_dropped:
  "\<forall>l \<in> set (parsed h path xs mem). filterOutTime l (FilterTime req) \<Longrightarrow>
   spec_lines h req node path None xs mem n off = []"
proof (induction xs arbitrary: mem n off)
  case Nil
  then show ?case by simp
next
  case (Cons b xs)
  obtain l0 m' where p: "parse h path b mem = (l0, m')" by (cases "parse h path b mem")
  from Cons.prems p Cons.IH [of m'] show ?case by (simp add: no_match_def filterOutTime_stamp)
qed

lemma read_silent:
  assumes "Lstat (SrcFS node) path = Some info" "\<not> InfoIsDir info" "Open (SrcFS node) path = Some f"
    and "spec_lines h req node path re (tokens f) (new_Memory x) 1 0 = []"
    and "time_Now w = (t0, w0)"
  shows "sent (ctl_state (scan_loop h req node path re (read_Meta req node path) (tokens f) (scan_init x t0 w0))) = []"
    "logLines (ctl_state (scan_loop h req node path re (read_Meta req node path) (tokens f) (scan_init x t0 w0))) = []"
    "\<not> sentAny (ctl_state (scan_loop h req node path re (read_Meta req node path) (tokens f) (scan_init x t0 w0)))"
  using scan_loop_silent [of h req node path re "tokens f" "scan_init x t0 w0" "read_Meta req node path"] assms(4)
  by (simp_all add: scan_init_fields)

lemma fixture_Meta:
  "read_Meta (fixture_request a) (fixture_node f) ''app.log''
     = \<lparr>ID = 9, Action = a, FS = ''node1'', Path = [''app.log'']\<rparr>"
  by (simp add: read_Meta_def fixture_request_def fixture_open)

lemma read_lines_match:
  assumes "resp \<in> set (fst (read x h w req node path (Some r)))" and "l \<in> set (Lines resp)"
  shows "r (Msg l)"
proof -
  have "l \<in> set (lines_of (fst (read x h w req node path (Some r))))"
    using assms by (auto simp: lines_of_def)
  then have "l \<in> set (file_lines x h req node path (Some r))"
    using read_prefix [of x h w req node path "Some r"] set_mono_prefix by blast
  then show ?thesis
    by (auto simp: file_lines_def spec_lines_match split: option.splits if_splits)
qed

subsection \<open>The combiner, the merged tree and its filter\<close>

lemma Key_add_Instance [simp]: "Key (add_Instance inst g) = Key g"
  by (simp add: add_Instance_def)

lemma map_update_distinct:
  assumes "distinct (map Key T)" "i < length T" "Key (T ! i) = k"
  shows "map (\<lambda>g. if Key g = k then u g else g) T = T[i := u (T ! i)]"
proof (rule nth_equalityI)
  show "length (map (\<lambda>g. if Key g = k then u g else g) T) = length (T[i := u (T ! i)])" by simp
next
  fix j assume j: "j < length (map (\<lambda>g. if Key g = k then u g else g) T)"
  then have jl: "j < length T" by simp
  show "map (\<lambda>g. if Key g = k then u g else g) T ! j = T[i := u (T ! i)] ! j"
  proof (cases "j = i")
    case True
    then show ?thesis using assms by simp
  next
    case False
    have "Key (T ! j) \<noteq> k"
    proof
      assume "Key (T ! j) = k"
      then have "map Key T ! j = map Key T ! i" using assms jl by simp
      moreover have "j < length (map Key T)" "i < length (map Key T)" using assms jl by simp_all
      ultimately show False using assms(1) False nth_eq_iff_index_eq by blast
    qed
    then show ?thesis using jl False by simp
  qed
qed

lemma index_inv_fresh:
  assumes "index_inv n T ix" and "Key f \<notin> Key ` set T"
  shows "index_inv n (T @ [add_Instance inst f]) (ix(Key f \<mapsto> n + length T))"
  unfolding index_inv_def
proof (intro allI)
  fix k a
  let ?T' = "T @ [add_Instance inst f]"
  have nk': "\<And>i. i < length T \<Longrightarrow> Key (T ! i) \<noteq> Key f"
    using assms(2) by (metis imageI nth_mem)
  show "((ix(Key f \<mapsto> n + length T)) k = Some a) =
        (\<exists>i < length ?T'. a = n + i \<and> Key (?T' ! i) = k)"
  proof (cases "k = Key f")
    case True
    have r: "(\<exists>i < length ?T'. a = n + i \<and> Key (?T' ! i) = k) \<longleftrightarrow> a = n + length T"
    proof
      assume "\<exists>i < length ?T'. a = n + i \<and> Key (?T' ! i) = k"
      then obtain i where i: "i < length ?T'" "a = n + i" "Key (?T' ! i) = k" by blast
      have "i = length T"
      proof (rule ccontr)
        assume "i \<noteq> length T"
        then have "i < length T" using i(1) by simp
        then show False using i(3) nk' True by (simp add: nth_append)
      qed
      then show "a = n + length T" using i(2) by simp
    next
      assume "a = n + length T"
      then show "\<exists>i < length ?T'. a = n + i \<and> Key (?T' ! i) = k"
        using True by (intro exI [of _ "length T"]) simp
    qed
    have l: "((ix(Key f \<mapsto> n + length T)) k = Some a) \<longleftrightarrow> a = n + length T"
      using True by auto
    show ?thesis by (simp only: l r)
  next
    case False
    have "(\<exists>i < length ?T'. a = n + i \<and> Key (?T' ! i) = k) \<longleftrightarrow>
          (\<exists>i < length T. a = n + i \<and> Key (T ! i) = k)"
    proof
      assume "\<exists>i < length ?T'. a = n + i \<and> Key (?T' ! i) = k"
      then obtain i where i: "i < length ?T'" "a = n + i" "Key (?T' ! i) = k" by blast
      have "i \<noteq> length T"
      proof
        assume "i = length T"
        then have "Key (?T' ! i) = Key f" by simp
        with i(3) False show False by simp
      qed
      then have "i < length T" using i(1) by simp
      then show "\<exists>i < length T. a = n + i \<and> Key (T ! i) = k"
        using i by (auto simp: nth_append)
    next
      assume "\<exists>i < length T. a = n + i \<and> Key (T ! i) = k"
      then obtain i where i: "i < length T" "a = n + i" "Key (T ! i) = k" by blast
      then show "\<exists>i < length ?T'. a = n + i \<and> Key (?T' ! i) = k"
        by (intro exI [of _ i]) (simp add: nth_append)
    qed
    moreover have "(ix k = Some a) = (\<exists>i < length T. a = n + i \<and> Key (T ! i) = k)"
      using assms(1) unfolding index_inv_def by blast
    moreover have "(ix(Key f \<mapsto> n + length T)) k = ix k" using False by simp
    ultimately show ?thesis by (simp only:)
  qed
qed

lemma index_inv_update:
  assumes "index_inv n T ix" and "i < length T"
  shows "index_inv n (T[i := add_Instance inst (T ! i)]) ix"
proof -
  have kk: "\<And>j. j < length T \<Longrightarrow> Key ((T[i := add_Instance inst (T ! i)]) ! j) = Key (T ! j)"
    using assms(2) by (simp add: nth_list_update)
  show ?thesis
    unfolding index_inv_def
  proof (intro allI)
    fix k a
    have "(ix k = Some a) = (\<exists>j < length T. a = n + j \<and> Key (T ! j) = k)"
      using assms(1) unfolding index_inv_def by blast
    also have "\<dots> = (\<exists>j < length (T[i := add_Instance inst (T ! i)]). a = n + j \<and>
                        Key ((T[i := add_Instance inst (T ! i)]) ! j) = k)"
      using kk by auto
    finally show "(ix k = Some a) = (\<exists>j < length (T[i := add_Instance inst (T ! i)]). a = n + j \<and>
                        Key ((T[i := add_Instance inst (T ! i)]) ! j) = k)" .
  qed
qed

lemma combiner_inv_add:
  assumes "combiner_inv s0 T cs"
  shows "combiner_inv s0 (combine_add (f, inst) T) (add f inst cs)"
proof -
  obtain c s where cs: "cs = (c, s)" by (cases cs)
  let ?n = "length (file_cells s0)"
  from assms cs have
    r: "response_cells s = response_cells s0" and
    fc: "file_cells s = file_cells s0 @ T" and
    fl: "files c = [?n ..< ?n + length T]" and
    d: "distinct (map Key T)" and
    ix: "index_inv ?n T (index c)"
    by (simp_all add: combiner_inv_def)
  show ?thesis
  proof (cases "index c (Key f)")
    case None
    have nk: "Key f \<notin> Key ` set T"
    proof
      assume "Key f \<in> Key ` set T"
      then obtain i where "i < length T" "Key (T ! i) = Key f" by (auto simp: in_set_conv_nth)
      then have "index c (Key f) = Some (?n + i)" using ix unfolding index_inv_def by blast
      with None show False by simp
    qed
    let ?T' = "T @ [add_Instance inst f]"
    let ?c' = "c\<lparr>files := files c @ [?n + length T], index := (index c)(Key f \<mapsto> ?n + length T)\<rparr>"
    let ?s' = "s\<lparr>file_cells := file_cells s0 @ ?T'\<rparr>"
    have a: "add f inst cs = (?c', ?s')"
      using None cs fc
      by (simp add: add_def new_File_def append_Instance_def add_Instance_def Let_def nth_append)
    have t: "combine_add (f, inst) T = ?T'" using nk by (simp add: combine_add_def)
    have 1: "response_cells ?s' = response_cells s0" using r by simp
    have 2: "file_cells ?s' = file_cells s0 @ ?T'" by simp
    have 3: "files ?c' = [?n ..< ?n + length ?T']" using fl by simp
    have 4: "distinct (map Key ?T')" using d nk by simp
    have 5: "index_inv ?n ?T' (index ?c')" using index_inv_fresh [OF ix nk, of inst] by simp
    show ?thesis unfolding a t combiner_inv_def fst_conv snd_conv using 1 2 3 4 5 by blast
  next
    case (Some p)
    then obtain i where i: "i < length T" "p = ?n + i" "Key (T ! i) = Key f"
      using ix unfolding index_inv_def by blast
    then have k: "Key f \<in> Key ` set T" by (metis imageI nth_mem)
    let ?T' = "T[i := add_Instance inst (T ! i)]"
    let ?s' = "s\<lparr>file_cells := file_cells s0 @ ?T'\<rparr>"
    have a: "add f inst cs = (c, ?s')"
      using Some cs fc i
      by (simp add: add_def append_Instance_def add_Instance_def nth_append list_update_append)
    have t: "combine_add (f, inst) T = ?T'"
      using k map_update_distinct [OF d i(1) i(3), of "add_Instance inst"] by (simp add: combine_add_def)
    have 1: "response_cells ?s' = response_cells s0" using r by simp
    have 2: "file_cells ?s' = file_cells s0 @ ?T'" by simp
    have 3: "files c = [?n ..< ?n + length ?T']" using fl by simp
    have "map Key ?T' = map Key T" using i(1) by (simp add: map_update list_update_same_conv)
    then have 4: "distinct (map Key ?T')" using d by simp
    have 5: "index_inv ?n ?T' (index c)" using ix i(1) by (rule index_inv_update)
    show ?thesis unfolding a t combiner_inv_def fst_conv snd_conv using 1 2 3 4 5 by blast
  qed
qed

lemma combiner_inv_foldl:
  "combiner_inv s0 (combine calls)
     (foldl (\<lambda>cs (f, inst). add f inst cs) (newCombiner, s0) calls)"
proof (induction calls rule: rev_induct)
  case Nil
  show ?case by (simp add: combiner_inv_def index_inv_def combine_def newCombiner_def)
next
  case (snoc call calls)
  obtain f inst where c: "call = (f, inst)" by (cases call)
  from combiner_inv_add [OF snoc, of f inst] c show ?case by (simp add: combine_def)
qed

lemma walk_all_spec:
  assumes "walk_all h sched envs req s = (c, s')"
  shows "response_cells s' = response_cells s"
    and "file_cells s' = file_cells s @ merged_tree h sched envs req"
    and "files c = [length (file_cells s) ..< length (file_cells s) + length (merged_tree h sched envs req)]"
  using combiner_inv_foldl [of s "weave sched (fan_out envs (\<lambda>w src. srcTree h w req src) (source h))"] assms
  by (simp_all add: walk_all_def merged_tree_def combiner_inv_def)

lemma mset_weave: "mset (weave sched qs) = mset (concat qs)"
proof (induction sched arbitrary: qs)
  case Nil
  show ?case by simp
next
  case (Cons i sched)
  show ?case
  proof (cases "i < length qs")
    case False
    with Cons show ?thesis by simp
  next
    case True
    show ?thesis
    proof (cases "qs ! i")
      case Nil
      with True Cons show ?thesis by simp
    next
      case (Cons e r)
      have q: "qs = take i qs @ (e # r) # drop (Suc i) qs"
        using True Cons id_take_nth_drop by metis
      have u: "qs[i := r] = take i qs @ r # drop (Suc i) qs"
        using True by (rule upd_conv_take_nth_drop)
      have "mset (concat (qs[i := r])) + {#e#} = mset (concat (take i qs @ (e # r) # drop (Suc i) qs))"
        unfolding u by simp
      then have "mset (concat (qs[i := r])) + {#e#} = mset (concat qs)" using q by simp
      with True Cons Cons.IH [of "qs[i := r]"] show ?thesis by simp
    qed
  qed
qed

lemma set_weave: "set (weave sched qs) = (\<Union>q \<in> set qs. set q)"
  using mset_weave [of sched qs] by (metis set_concat set_mset_mset)

lemma fan_out_eq: "fan_out envs g srcs = map (\<lambda>i. g (envs i) (srcs ! i)) [0..<length srcs]"
  by (auto simp: fan_out_def enumerate_eq_zip intro!: nth_equalityI)

lemma combine_snoc: "combine (calls @ [c]) = combine_add c (combine calls)"
  by (simp add: combine_def)

lemma combine_Nil: "combine [] = []"
  by (simp add: combine_def)

lemma map_Key_upd:
  "map Key (map (\<lambda>g. if Key g = k then add_Instance inst g else g) T) = map Key T"
  by (induction T) auto

lemma map_Key_combine_add:
  "map Key (combine_add c T) =
     (if Key (fst c) \<in> Key ` set T then map Key T else map Key T @ [Key (fst c)])"
  by (cases c) (simp add: combine_add_def map_Key_upd del: map_map)

lemma keys_combine_add:
  "Key ` set (combine_add c T) = insert (Key (fst c)) (Key ` set T)"
proof -
  have "Key ` set (combine_add c T) = set (map Key (combine_add c T))" by simp
  also have "\<dots> = insert (Key (fst c)) (Key ` set T)"
    unfolding map_Key_combine_add by auto
  finally show ?thesis .
qed

lemma distinct_combine_add:
  "distinct (map Key T) \<Longrightarrow> distinct (map Key (combine_add c T))"
  unfolding map_Key_combine_add by simp

lemma distinct_combine: "distinct (map Key (combine calls))"
  by (induction calls rule: rev_induct) (simp_all add: combine_Nil combine_snoc distinct_combine_add)

lemma keys_combine: "Key ` set (combine calls) = (\<lambda>c. Key (fst c)) ` set calls"
  by (induction calls rule: rev_induct) (auto simp: combine_Nil combine_snoc keys_combine_add)

lemma instances_combine:
  assumes "\<forall>c \<in> set calls. Instances (fst c) = []" and "g \<in> set (combine calls)"
  shows "Instances g = map snd (filter (\<lambda>c. Key (fst c) = Key g) calls)"
  using assms
proof (induction calls arbitrary: g rule: rev_induct)
  case Nil
  then show ?case by (simp add: combine_Nil)
next
  case (snoc c calls)
  obtain f inst where c: "c = (f, inst)" by (cases c)
  have e: "Instances f = []" using snoc.prems(1) c by simp
  have ih: "\<And>g'. g' \<in> set (combine calls) \<Longrightarrow>
      Instances g' = map snd (filter (\<lambda>c. Key (fst c) = Key g') calls)"
    using snoc.IH snoc.prems(1) by simp
  show ?case
  proof (cases "Key f \<in> Key ` set (combine calls)")
    case True
    then have "combine (calls @ [c]) =
        map (\<lambda>g. if Key g = Key f then add_Instance inst g else g) (combine calls)"
      using c by (simp add: combine_snoc combine_add_def)
    with snoc.prems(2) obtain g' where g': "g' \<in> set (combine calls)"
      "g = (if Key g' = Key f then add_Instance inst g' else g')" by auto
    show ?thesis
    proof (cases "Key g' = Key f")
      case True
      with g' ih [OF g'(1)] c show ?thesis by (simp add: add_Instance_def)
    next
      case False
      with g' ih [OF g'(1)] c show ?thesis by simp
    qed
  next
    case False
    then have cc: "combine (calls @ [c]) = combine calls @ [add_Instance inst f]"
      using c by (simp add: combine_snoc combine_add_def)
    show ?thesis
    proof (cases "g \<in> set (combine calls)")
      case True
      then have "Key g \<noteq> Key f" using False by (metis imageI)
      with ih [OF True] c show ?thesis by simp
    next
      case nin: False
      then have g: "g = add_Instance inst f" using snoc.prems(2) cc by simp
      have "Key f \<notin> (\<lambda>c. Key (fst c)) ` set calls"
        using False keys_combine [of calls] by simp
      then have "\<forall>c \<in> set calls. Key (fst c) \<noteq> Key f" by (metis imageI)
      then have "filter (\<lambda>c. Key (fst c) = Key f) calls = []"
        by (simp add: filter_empty_conv)
      with g e c show ?thesis by (simp add: add_Instance_def)
    qed
  qed
qed

lemma single_hit:
  assumes "distinct (map key xs)" and "\<forall>x \<in> set xs. val x = v"
  shows "map val (filter (\<lambda>x. key x = k) xs) = (if k \<in> key ` set xs then [v] else [])"
  using assms
proof (induction xs)
  case Nil
  then show ?case by simp
next
  case (Cons x xs)
  show ?case
  proof (cases "key x = k")
    case True
    then have "k \<notin> key ` set xs" using Cons.prems(1) by auto
    then have "filter (\<lambda>x. key x = k) xs = []" by (auto simp: filter_empty_conv)
    with True Cons.prems(2) show ?thesis by simp
  next
    case False
    with Cons show ?thesis by auto
  qed
qed

lemma concat_hits:
  "concat (map (\<lambda>i. if P i then [nm i] else []) is) = map nm (filter P is)"
  by (induction "is") auto

lemma recurseTree_inv:
  assumes "\<And>walker w a. P a \<Longrightarrow> P (snd (f walker w a))" and "P acc"
  shows "P (snd (recurseTree h f stack w acc))"
  using assms
proof (induction h f stack w acc rule: recurseTree.induct)
  case (1 h f w acc)
  then show ?case by simp
next
  case (2 h f walker stack w acc)
  obtain b w' where c: "ctx_Err w = (b, w')" by (cases "ctx_Err w")
  obtain w'' acc' where v: "f walker w' acc = (w'', acc')" by (cases "f walker w' acc")
  have pa: "P acc'" using "2.prems"(1) [OF "2.prems"(2), of walker w'] v by simp
  show ?case
  proof (cases b)
    case True
    with c "2.prems" show ?thesis by simp
  next
    case False
    show ?thesis
      using "2.IH"(1) [of b w'] "2.IH"(2) [of b w'] "2.IH"(3) [of b w' w'' acc']
        "2.IH"(4) [of b w'] "2.IH"(5) [of b w' w'' acc'] "2.prems" pa c v False
      by auto
  qed
qed

lemma map_nth_append_upt: "map ((!) (xs @ ys)) [length xs ..< length xs + length ys] = ys"
  by (rule nth_equalityI) (simp_all add: nth_append)

lemma map_nth_append_old:
  "\<forall>p \<in> set ps. p < length xs \<Longrightarrow> map ((!) (xs @ ys)) ps = map ((!) xs) ps"
  by (simp add: nth_append)

lemma kept_files_Cons:
  "kept_files F (g # T) =
     (if keep_Instances F g = [] then kept_files F T
      else g\<lparr>Instances := keep_Instances F g\<rparr> # kept_files F T)"
  by (simp add: kept_files_def)

lemma File_FilterSources_eq:
  "File_FilterSources g F s =
     (if keep_Instances F g = [] then (None, s)
      else (Some (length (file_cells s)),
            s\<lparr>file_cells := file_cells s @ [g\<lparr>Instances := keep_Instances F g\<rparr>]\<rparr>))"
  by (simp add: File_FilterSources_def keep_Instances_def new_File_def Let_def)

lemma filter_files_spec:
  assumes "\<forall>p \<in> set ps. p < length (file_cells s)"
  shows "filter_files ps F acc s =
     (acc @ [length (file_cells s) ..<
             length (file_cells s) + length (kept_files F (map ((!) (file_cells s)) ps))],
      s\<lparr>file_cells := file_cells s @ kept_files F (map ((!) (file_cells s)) ps)\<rparr>)"
  using assms
proof (induction ps arbitrary: acc s)
  case Nil
  show ?case by (simp add: kept_files_def)
next
  case (Cons p ps)
  let ?g = "file_cells s ! p"
  have v: "\<forall>p \<in> set ps. p < length (file_cells s)" using Cons.prems by simp
  show ?case
  proof (cases "keep_Instances F ?g = []")
    case True
    with Cons.IH [OF v, of acc] show ?thesis
      by (simp add: File_FilterSources_eq kept_files_Cons)
  next
    case False
    let ?g' = "?g\<lparr>Instances := keep_Instances F ?g\<rparr>"
    let ?s' = "s\<lparr>file_cells := file_cells s @ [?g']\<rparr>"
    let ?K = "kept_files F (map ((!) (file_cells s)) ps)"
    have v': "\<forall>p \<in> set ps. p < length (file_cells ?s')" using v by auto
    have m: "map ((!) (file_cells ?s')) ps = map ((!) (file_cells s)) ps"
      using map_nth_append_old [OF v, of "[?g']"] by simp
    have u: "[length (file_cells s) ..< length (file_cells s) + Suc (length ?K)]
        = length (file_cells s) # [Suc (length (file_cells s)) ..< Suc (length (file_cells s)) + length ?K]"
      by (simp add: upt_rec)
    have "filter_files (p # ps) F acc s = filter_files ps F (acc @ [length (file_cells s)]) ?s'"
      using False by (simp add: File_FilterSources_eq)
    also have "\<dots> = ((acc @ [length (file_cells s)]) @
          [length (file_cells ?s') ..< length (file_cells ?s') + length ?K],
        ?s'\<lparr>file_cells := file_cells ?s' @ ?K\<rparr>)"
      using Cons.IH [OF v', of "acc @ [length (file_cells s)]"] unfolding m .
    also have "\<dots> = (acc @ [length (file_cells s) ..< length (file_cells s) + length (?g' # ?K)],
        s\<lparr>file_cells := file_cells s @ ?g' # ?K\<rparr>)"
      using u by simp
    finally show ?thesis using False by (simp add: kept_files_Cons)
  qed
qed

lemma Response_FilterSources_spec:
  assumes "\<forall>p \<in> set (Files r). p < length (file_cells s)"
  shows "\<exists>fs K. Response_FilterSources r F s =
            (length (response_cells s),
             \<lparr>response_cells = response_cells s @ [r\<lparr>Files := fs\<rparr>],
              file_cells = file_cells s @ K\<rparr>)
          \<and> map ((!) (file_cells s @ K)) fs = filter_tree F (tree s r)
          \<and> (\<forall>p \<in> set fs. p < length (file_cells s @ K))"
proof (cases "dom F = {}")
  case True
  have "Response_FilterSources r F s =
      (length (response_cells s),
       \<lparr>response_cells = response_cells s @ [r\<lparr>Files := Files r\<rparr>], file_cells = file_cells s @ []\<rparr>)"
    using True by (simp add: Response_FilterSources_def new_Response_def)
  moreover have "map ((!) (file_cells s @ [])) (Files r) = filter_tree F (tree s r)"
    using True by (simp add: filter_tree_def tree_def)
  moreover have "\<forall>p \<in> set (Files r). p < length (file_cells s @ [])" using assms by simp
  ultimately show ?thesis by blast
next
  case False
  let ?n = "length (file_cells s)"
  let ?K = "kept_files F (map ((!) (file_cells s)) (Files r))"
  let ?fs = "[?n ..< ?n + length ?K]"
  have "Response_FilterSources r F s =
      (length (response_cells s),
       \<lparr>response_cells = response_cells s @ [r\<lparr>Files := ?fs\<rparr>], file_cells = file_cells s @ ?K\<rparr>)"
    using False filter_files_spec [OF assms, of F "[]"]
    by (simp add: Response_FilterSources_def new_Response_def)
  moreover have "map ((!) (file_cells s @ ?K)) ?fs = filter_tree F (tree s r)"
    using False map_nth_append_upt [of "file_cells s" ?K] by (simp add: filter_tree_def tree_def)
  moreover have "\<forall>p \<in> set ?fs. p < length (file_cells s @ ?K)" by simp
  ultimately show ?thesis by blast
qed

lemma serveTree_hit:
  assumes "cache (filepath_Join x (ReqPath req)) = Some a"
    and "a < length (response_cells s)"
    and "\<forall>p \<in> set (Files (response_cells s ! a)). p < length (file_cells s)"
  shows "\<exists>fs K. serveTree x h sched envs req (cache, s) =
            ([with_ID req ((response_cells s ! a)\<lparr>Files := fs\<rparr>)], cache,
             \<lparr>response_cells = response_cells s @ [with_ID req ((response_cells s ! a)\<lparr>Files := fs\<rparr>)],
              file_cells = file_cells s @ K\<rparr>)
          \<and> map ((!) (file_cells s @ K)) fs
              = filter_tree (filterSourceMap req) (tree s (response_cells s ! a))
          \<and> (\<forall>p \<in> set fs. p < length (file_cells s @ K))"
proof -
  let ?R = "response_cells s ! a"
  from Response_FilterSources_spec [OF assms(3), of "filterSourceMap req"]
  obtain fs K where
    f: "Response_FilterSources ?R (filterSourceMap req) s =
          (length (response_cells s),
           \<lparr>response_cells = response_cells s @ [?R\<lparr>Files := fs\<rparr>], file_cells = file_cells s @ K\<rparr>)"
    and t: "map ((!) (file_cells s @ K)) fs = filter_tree (filterSourceMap req) (tree s ?R)"
    and v: "\<forall>p \<in> set fs. p < length (file_cells s @ K)"
    by blast
  have "serveTree x h sched envs req (cache, s) =
            ([with_ID req (?R\<lparr>Files := fs\<rparr>)], cache,
             \<lparr>response_cells = response_cells s @ [with_ID req (?R\<lparr>Files := fs\<rparr>)],
              file_cells = file_cells s @ K\<rparr>)"
    using assms(1) f by (simp add: serveTree_def Let_def with_ID_def)
  with t v show ?thesis by blast
qed

lemma serveTree_miss:
  assumes "cache (filepath_Join x (ReqPath req)) = None"
  shows "\<exists>fs K. serveTree x h sched envs req (cache, s) =
            ([with_ID req (tree_Response req fs)],
             cache(filepath_Join x (ReqPath req) \<mapsto> length (response_cells s)),
             \<lparr>response_cells = response_cells s @
                [tree_Response req [length (file_cells s) ..<
                    length (file_cells s) + length (merged_tree h sched envs req)],
                 with_ID req (tree_Response req fs)],
              file_cells = file_cells s @ merged_tree h sched envs req @ K\<rparr>)
          \<and> map ((!) (file_cells s @ merged_tree h sched envs req @ K)) fs
              = filter_tree (filterSourceMap req) (merged_tree h sched envs req)
          \<and> (\<forall>p \<in> set fs. p < length (file_cells s @ merged_tree h sched envs req @ K))"
proof -
  let ?M = "merged_tree h sched envs req"
  let ?n = "length (file_cells s)"
  let ?R = "tree_Response req [?n ..< ?n + length ?M]"
  obtain c s' where w: "walk_all h sched envs req s = (c, s')" by (cases "walk_all h sched envs req s")
  note ws = walk_all_spec [OF w]
  let ?s1 = "\<lparr>response_cells = response_cells s @ [?R], file_cells = file_cells s @ ?M\<rparr>"
  have n: "new_Response \<lparr>Meta = ReqMeta req, Lines = [], Files = files c, Error = [], Finished = False\<rparr> s'
      = (length (response_cells s), ?s1)"
    using ws by (simp add: new_Response_def tree_Response_def)
  have vR: "\<forall>p \<in> set (Files ?R). p < length (file_cells ?s1)" by (simp add: tree_Response_def)
  have tR: "tree ?s1 ?R = ?M"
    using map_nth_append_upt [of "file_cells s" ?M] by (simp add: tree_def tree_Response_def)
  from Response_FilterSources_spec [OF vR, of "filterSourceMap req"]
  obtain fs K where
    f: "Response_FilterSources ?R (filterSourceMap req) ?s1 =
          (length (response_cells ?s1),
           \<lparr>response_cells = response_cells ?s1 @ [?R\<lparr>Files := fs\<rparr>], file_cells = file_cells ?s1 @ K\<rparr>)"
    and t: "map ((!) (file_cells ?s1 @ K)) fs = filter_tree (filterSourceMap req) (tree ?s1 ?R)"
    and v: "\<forall>p \<in> set fs. p < length (file_cells ?s1 @ K)"
    by blast
  have rf: "?R\<lparr>Files := fs\<rparr> = tree_Response req fs" by (simp add: tree_Response_def)
  have "serveTree x h sched envs req (cache, s) =
            ([with_ID req (tree_Response req fs)],
             cache(filepath_Join x (ReqPath req) \<mapsto> length (response_cells s)),
             \<lparr>response_cells = response_cells s @ [?R, with_ID req (tree_Response req fs)],
              file_cells = file_cells s @ ?M @ K\<rparr>)"
    using assms w n f rf
    by (simp add: serveTree_def Let_def with_ID_def nth_append list_update_append)
  moreover have "map ((!) (file_cells s @ ?M @ K)) fs = filter_tree (filterSourceMap req) ?M"
    using t tR by simp
  moreover have "\<forall>p \<in> set fs. p < length (file_cells s @ ?M @ K)" using v by simp
  ultimately show ?thesis by blast
qed

lemma srcTree_calls:
  "c \<in> set (srcTree h w req src) \<Longrightarrow> InstFS (snd c) = Name src \<and> Instances (fst c) = []"
proof -
  let ?P = "\<lambda>calls. \<forall>c \<in> set calls. InstFS (snd c) = Name src \<and> Instances (fst c) = []"
  have "?P (snd (recurseTree h (srcTree_visit src) (Walk (SrcFS src) (Join (SrcFS src) (ReqPath req))) w []))"
    by (rule recurseTree_inv) (auto simp: srcTree_visit_def Let_def)
  then show "c \<in> set (srcTree h w req src) \<Longrightarrow> InstFS (snd c) = Name src \<and> Instances (fst c) = []"
    by (simp add: srcTree_def Let_def)
qed

lemma walked_calls:
  "c \<in> set (walked h envs req i) \<Longrightarrow> InstFS (snd c) = Name (source h ! i) \<and> Instances (fst c) = []"
  unfolding walked_def by (rule srcTree_calls)

lemma merged_tree_eq:
  "merged_tree h sched envs req =
     combine (weave sched (map (walked h envs req) [0..<length (source h)]))"
proof -
  have "walked h envs req = (\<lambda>i. srcTree h (envs i) req (source h ! i))"
    by (rule ext) (simp add: walked_def)
  then show ?thesis by (simp add: merged_tree_def fan_out_eq)
qed

lemma calls_of_merged:
  "mset (weave sched (map (walked h envs req) [0..<length (source h)]))
     = mset (concat (map (walked h envs req) [0..<length (source h)]))"
  by (rule mset_weave)

lemma merged_distinct: "distinct (map Key (merged_tree h sched envs req))"
  unfolding merged_tree_eq by (rule distinct_combine)

lemma merged_keys:
  "Key ` set (merged_tree h sched envs req) = (\<Union>i \<in> {i. i < length (source h)}. walked_keys h envs req i)"
proof -
  let ?calls = "weave sched (map (walked h envs req) [0..<length (source h)])"
  have "set ?calls = (\<Union>i \<in> {i. i < length (source h)}. set (walked h envs req i))"
    unfolding set_weave by auto
  then show ?thesis
    unfolding merged_tree_eq keys_combine walked_keys_def by auto
qed

lemma filter_concat_map:
  "map val (filter P (concat (map W is))) = concat (map (\<lambda>i. map val (filter P (W i))) is)"
  by (induction "is") auto

lemma merged_instances:
  assumes "g \<in> set (merged_tree h sched envs req)"
  shows "mset (Instances g) =
     mset (concat (map (\<lambda>i. map snd (filter (\<lambda>c. Key (fst c) = Key g) (walked h envs req i)))
                    [0..<length (source h)]))"
proof -
  let ?calls = "weave sched (map (walked h envs req) [0..<length (source h)])"
  have e: "\<forall>c \<in> set ?calls. Instances (fst c) = []"
    unfolding set_weave using walked_calls by fastforce
  have "Instances g = map snd (filter (\<lambda>c. Key (fst c) = Key g) ?calls)"
    using instances_combine [OF e] assms unfolding merged_tree_eq by blast
  then have "mset (Instances g) = image_mset snd (filter_mset (\<lambda>c. Key (fst c) = Key g) (mset ?calls))"
    by simp
  also have "\<dots> = image_mset snd (filter_mset (\<lambda>c. Key (fst c) = Key g)
      (mset (concat (map (walked h envs req) [0..<length (source h)]))))"
    unfolding calls_of_merged ..
  also have "\<dots> = mset (map snd (filter (\<lambda>c. Key (fst c) = Key g)
      (concat (map (walked h envs req) [0..<length (source h)]))))"
    by simp
  finally show ?thesis unfolding filter_concat_map .
qed

lemma merged_instance_names:
  assumes "g \<in> set (merged_tree h sched envs req)"
    and "\<forall>i < length (source h). distinct (map (\<lambda>c. Key (fst c)) (walked h envs req i))"
  shows "mset (map InstFS (Instances g)) =
     mset (map (\<lambda>i. Name (source h ! i))
            (filter (\<lambda>i. Key g \<in> walked_keys h envs req i) [0..<length (source h)]))"
proof -
  let ?is = "[0..<length (source h)]"
  have h1: "map (\<lambda>c. InstFS (snd c)) (filter (\<lambda>c. Key (fst c) = Key g) (walked h envs req i))
      = (if Key g \<in> walked_keys h envs req i then [Name (source h ! i)] else [])"
    if "i < length (source h)" for i
    unfolding walked_keys_def
    using single_hit [of "\<lambda>c. Key (fst c)" "walked h envs req i" "\<lambda>c. InstFS (snd c)"
        "Name (source h ! i)" "Key g"] assms(2) that walked_calls [of _ h envs req i]
    by simp
  have "mset (map InstFS (Instances g)) = image_mset InstFS (mset (Instances g))" by simp
  also have "\<dots> = mset (map InstFS (concat (map (\<lambda>i. map snd (filter (\<lambda>c. Key (fst c) = Key g)
      (walked h envs req i))) ?is)))"
    unfolding merged_instances [OF assms(1)] by simp
  also have "map InstFS (concat (map (\<lambda>i. map snd (filter (\<lambda>c. Key (fst c) = Key g)
      (walked h envs req i))) ?is))
    = concat (map (\<lambda>i. map (\<lambda>c. InstFS (snd c)) (filter (\<lambda>c. Key (fst c) = Key g)
      (walked h envs req i))) ?is)"
    by (simp add: map_concat comp_def)
  also have "\<dots> = concat (map (\<lambda>i. if Key g \<in> walked_keys h envs req i
      then [Name (source h ! i)] else []) ?is)"
    using h1 by (intro arg_cong [where f = concat] map_cong) simp_all
  also have "\<dots> = map (\<lambda>i. Name (source h ! i)) (filter (\<lambda>i. Key g \<in> walked_keys h envs req i) ?is)"
    by (rule concat_hits)
  finally show ?thesis .
qed

lemma kept_files_set:
  "g' \<in> set (kept_files F M) \<longleftrightarrow>
     (\<exists>g \<in> set M. keep_Instances F g \<noteq> [] \<and> g' = g\<lparr>Instances := keep_Instances F g\<rparr>)"
  by (auto simp: kept_files_def)

lemma kept_files_distinct: "distinct (map Key M) \<Longrightarrow> distinct (map Key (kept_files F M))"
proof -
  assume d: "distinct (map Key M)"
  have "map Key (kept_files F M) = map Key (filter (\<lambda>g. keep_Instances F g \<noteq> []) M)"
    by (simp add: kept_files_def comp_def)
  then show ?thesis using d by (simp add: distinct_map_filter)
qed

lemma filter_tree_distinct: "distinct (map Key M) \<Longrightarrow> distinct (map Key (filter_tree F M))"
  by (simp add: filter_tree_def kept_files_distinct)

lemma keep_names:
  assumes "mset (map InstFS (Instances g)) = mset (map nm (filter Q is))"
  shows "mset (map InstFS (keep_Instances F g)) =
         mset (map nm (filter (\<lambda>i. lookup_bool F (nm i) \<and> Q i) is))"
proof -
  have "map InstFS (keep_Instances F g) = filter (lookup_bool F) (map InstFS (Instances g))"
    by (simp add: keep_Instances_def filter_map comp_def)
  then have "mset (map InstFS (keep_Instances F g))
      = filter_mset (lookup_bool F) (mset (map InstFS (Instances g)))" by simp
  also have "\<dots> = filter_mset (lookup_bool F) (mset (map nm (filter Q is)))"
    unfolding assms ..
  also have "\<dots> = mset (filter (lookup_bool F) (map nm (filter Q is)))" by simp
  also have "filter (lookup_bool F) (map nm (filter Q is))
      = map nm (filter (\<lambda>i. lookup_bool F (nm i) \<and> Q i) is)"
    by (simp add: filter_map comp_def conj_commute)
  finally show ?thesis .
qed

lemma filter_tree_names:
  assumes "g' \<in> set (filter_tree F M)"
    and "\<forall>g \<in> set M. mset (map InstFS (Instances g)) = mset (map nm (filter (\<lambda>i. Key g \<in> K i) is))"
  shows "mset (map InstFS (Instances g')) =
         mset (map nm (filter (\<lambda>i. (dom F = {} \<or> lookup_bool F (nm i)) \<and> Key g' \<in> K i) is))"
proof (cases "dom F = {}")
  case True
  with assms show ?thesis by (simp add: filter_tree_def)
next
  case False
  with assms(1) obtain g where g: "g \<in> set M" "g' = g\<lparr>Instances := keep_Instances F g\<rparr>"
    by (auto simp: filter_tree_def kept_files_set)
  from keep_names [OF assms(2) [rule_format, OF g(1)], of F] g(2) False
  show ?thesis by simp
qed

lemma filter_tree_keys:
  assumes "\<forall>g \<in> set M. mset (map InstFS (Instances g)) = mset (map nm (filter (\<lambda>i. Key g \<in> K i) is))"
    and "Key ` set M = (\<Union>i \<in> set is. K i)"
  shows "Key ` set (filter_tree F M) =
         (\<Union>i \<in> {i \<in> set is. dom F = {} \<or> lookup_bool F (nm i)}. K i)"
proof (cases "dom F = {}")
  case True
  with assms(2) show ?thesis by (simp add: filter_tree_def)
next
  case False
  have ne: "keep_Instances F g \<noteq> [] \<longleftrightarrow> (\<exists>i \<in> set is. lookup_bool F (nm i) \<and> Key g \<in> K i)"
    if g: "g \<in> set M" for g
  proof -
    have "keep_Instances F g \<noteq> [] \<longleftrightarrow> mset (map InstFS (keep_Instances F g)) \<noteq> {#}" by simp
    also have "\<dots> \<longleftrightarrow> mset (map nm (filter (\<lambda>i. lookup_bool F (nm i) \<and> Key g \<in> K i) is)) \<noteq> {#}"
      unfolding keep_names [OF assms(1) [rule_format, OF g], of F] ..
    also have "\<dots> \<longleftrightarrow> (\<exists>i \<in> set is. lookup_bool F (nm i) \<and> Key g \<in> K i)"
      by (auto simp: filter_empty_conv)
    finally show ?thesis .
  qed
  show ?thesis
  proof (intro set_eqI iffI)
    fix k assume "k \<in> Key ` set (filter_tree F M)"
    then obtain g where g: "g \<in> set M" "keep_Instances F g \<noteq> []" "k = Key g"
      using False by (auto simp: filter_tree_def kept_files_set)
    with ne [OF g(1)] show "k \<in> (\<Union>i \<in> {i \<in> set is. dom F = {} \<or> lookup_bool F (nm i)}. K i)"
      by auto
  next
    fix k assume "k \<in> (\<Union>i \<in> {i \<in> set is. dom F = {} \<or> lookup_bool F (nm i)}. K i)"
    then obtain i where i: "i \<in> set is" "lookup_bool F (nm i)" "k \<in> K i" using False by auto
    then have "k \<in> Key ` set M" using assms(2) by auto
    then obtain g where g: "g \<in> set M" "Key g = k" by auto
    then have "keep_Instances F g \<noteq> []" using ne [OF g(1)] i by auto
    then have "g\<lparr>Instances := keep_Instances F g\<rparr> \<in> set (kept_files F M)"
      using g(1) kept_files_set by blast
    then have "Key (g\<lparr>Instances := keep_Instances F g\<rparr>) \<in> Key ` set (kept_files F M)"
      by (rule imageI)
    then show "k \<in> Key ` set (filter_tree F M)" using g(2) False by (simp add: filter_tree_def)
  qed
qed

lemma filter_tree_nonempty:
  assumes "g' \<in> set (filter_tree F M)"
    and "\<forall>g \<in> set M. mset (map InstFS (Instances g)) = mset (map nm (filter (\<lambda>i. Key g \<in> K i) is))"
    and "Key ` set M = (\<Union>i \<in> set is. K i)"
  shows "Instances g' \<noteq> []"
proof (cases "dom F = {}")
  case True
  then have g: "g' \<in> set M" using assms(1) by (simp add: filter_tree_def)
  then have "Key g' \<in> (\<Union>i \<in> set is. K i)" using assms(3) by blast
  then have "filter (\<lambda>i. Key g' \<in> K i) is \<noteq> []" by (auto simp: filter_empty_conv)
  then have "mset (map nm (filter (\<lambda>i. Key g' \<in> K i) is)) \<noteq> {#}"
    by (simp only: mset_zero_iff map_is_Nil_conv not_False_eq_True)
  then have "mset (map InstFS (Instances g')) \<noteq> {#}"
    unfolding assms(2) [rule_format, OF g] .
  then show ?thesis by auto
next
  case False
  with assms(1) show ?thesis by (auto simp: filter_tree_def kept_files_set)
qed

lemma foldl_upd_True:
  "foldl (\<lambda>m k. m(k \<mapsto> True)) m0 xs = (\<lambda>k. if k \<in> set xs then Some True else m0 k)"
  by (induction xs arbitrary: m0) (auto simp: fun_eq_iff)

lemma sourceSet_eq: "sourceSet xs = (\<lambda>k. if k \<in> set xs then Some True else None)"
  by (simp add: sourceSet_def foldl_upd_True)

lemma dom_sourceSet: "dom (sourceSet xs) = set xs"
  unfolding sourceSet_eq by (auto simp: dom_def)

lemma lookup_sourceSet: "lookup_bool (sourceSet xs) k \<longleftrightarrow> k \<in> set xs"
  unfolding sourceSet_eq by (simp add: lookup_bool_def)

lemma Init_fields:
  "ReqPath (Init req) = ReqPath req" "ReqMeta (Init req) = ReqMeta req"
  "filterSourceMap (Init req) = sourceSet (FilterSource req)"
  "FilterSource (Init req) = FilterSource req" "Regexp (Init req) = Regexp req"
  "FilterTime (Init req) = FilterTime req"
  by (simp_all add: Init_def)

lemma srcTree_Init: "srcTree h w (Init req) src = srcTree h w req src"
  by (simp add: srcTree_def Init_fields)

lemma merged_tree_Init: "merged_tree h sched envs (Init req) = merged_tree h sched envs req"
  by (simp add: merged_tree_def srcTree_Init)

text \<open>The tree a get-file-tree request sends is the filtered form of the tree it looked up or built.\<close>

lemma serveTree_tree:
  assumes "case cache (filepath_Join x (ReqPath req)) of
             None \<Rightarrow> M = merged_tree h sched envs req
           | Some a \<Rightarrow> a < length (response_cells s) \<and>
               (\<forall>p \<in> set (Files (response_cells s ! a)). p < length (file_cells s)) \<and>
               tree s (response_cells s ! a) = M"
  shows "\<exists>r cache' s'. serveTree x h sched envs req (cache, s) = ([r], cache', s') \<and>
           tree s' r = filter_tree (filterSourceMap req) M"
proof (cases "cache (filepath_Join x (ReqPath req))")
  case None
  from None serveTree_miss [where cache = cache and x = x and req = req and h = h
      and sched = sched and envs = envs and s = s]
  obtain fs K where
    "serveTree x h sched envs req (cache, s) =
            ([with_ID req (tree_Response req fs)],
             cache(filepath_Join x (ReqPath req) \<mapsto> length (response_cells s)),
             \<lparr>response_cells = response_cells s @
                [tree_Response req [length (file_cells s) ..<
                    length (file_cells s) + length (merged_tree h sched envs req)],
                 with_ID req (tree_Response req fs)],
              file_cells = file_cells s @ merged_tree h sched envs req @ K\<rparr>)"
    "map ((!) (file_cells s @ merged_tree h sched envs req @ K)) fs
              = filter_tree (filterSourceMap req) (merged_tree h sched envs req)"
    by blast
  moreover have "M = merged_tree h sched envs req" using assms None by simp
  ultimately show ?thesis by (simp add: tree_def with_ID_def tree_Response_def)
next
  case (Some a)
  then have a: "a < length (response_cells s)"
    "\<forall>p \<in> set (Files (response_cells s ! a)). p < length (file_cells s)"
    "tree s (response_cells s ! a) = M"
    using assms by simp_all
  from Some a(1,2) serveTree_hit [where cache = cache and x = x and req = req and h = h
      and sched = sched and envs = envs and s = s and a = a]
  obtain fs K where
    "serveTree x h sched envs req (cache, s) =
            ([with_ID req ((response_cells s ! a)\<lparr>Files := fs\<rparr>)], cache,
             \<lparr>response_cells = response_cells s @ [with_ID req ((response_cells s ! a)\<lparr>Files := fs\<rparr>)],
              file_cells = file_cells s @ K\<rparr>)"
    "map ((!) (file_cells s @ K)) fs
              = filter_tree (filterSourceMap req) (tree s (response_cells s ! a))"
    by blast
  with a(3) show ?thesis by (simp add: tree_def with_ID_def)
qed

text \<open>
  What a get-file-tree request sends is the filtered form of the merged tree of
  the walks that built it: its own walks (\<open>sched\<close>, \<open>envs\<close>) when the cache has no
  entry for the base path, and otherwise the walks of the request that stored the
  entry (\<open>sched'\<close>, \<open>envs'\<close>), whether or not those were cancelled.
\<close>

lemma serveTree_keys_and_instances:
  assumes "\<forall>i < length (source h). distinct (map (\<lambda>c. Key (fst c)) (walked h envs' req i))"
    and "case cache (filepath_Join x (ReqPath req)) of
           None \<Rightarrow> sched' = sched \<and> envs' = envs
         | Some a \<Rightarrow> a < length (response_cells s) \<and>
             (\<forall>p \<in> set (Files (response_cells s ! a)). p < length (file_cells s)) \<and>
             tree s (response_cells s ! a) = merged_tree h sched' envs' req"
  shows "\<exists>r cache' s'. serveTree x h sched envs (Init req) (cache, s) = ([r], cache', s') \<and>
           Key ` set (tree s' r) =
             (\<Union>i \<in> {i. i < length (source h) \<and> selected (FilterSource req) (source h ! i)}.
                walked_keys h envs' req i) \<and>
           distinct (map Key (tree s' r)) \<and>
           (\<forall>g \<in> set (tree s' r).
              Instances g \<noteq> [] \<and>
              mset (map InstFS (Instances g)) =
                mset (map (\<lambda>i. Name (source h ! i))
                       (filter (\<lambda>i. selected (FilterSource req) (source h ! i) \<and>
                                    Key g \<in> walked_keys h envs' req i)
                          [0..<length (source h)]))) \<and>
           tree s' r = filter_tree (sourceSet (FilterSource req)) (merged_tree h sched' envs' req) \<and>
           (FilterSource req = [] \<longrightarrow> tree s' r = merged_tree h sched' envs' req)"
proof -
  let ?M = "merged_tree h sched' envs' req"
  let ?F = "sourceSet (FilterSource req)"
  let ?is = "[0..<length (source h)]"
  let ?nm = "\<lambda>i. Name (source h ! i)"
  let ?K = "walked_keys h envs' req"
  have b: "case cache (filepath_Join x (ReqPath (Init req))) of
             None \<Rightarrow> ?M = merged_tree h sched envs (Init req)
           | Some a \<Rightarrow> a < length (response_cells s) \<and>
               (\<forall>p \<in> set (Files (response_cells s ! a)). p < length (file_cells s)) \<and>
               tree s (response_cells s ! a) = ?M"
    using assms(2) by (auto simp: Init_fields merged_tree_Init split: option.splits)
  from b serveTree_tree [where cache = cache and x = x and req = "Init req" and h = h
      and sched = sched and envs = envs and s = s and M = ?M]
  obtain r cache' s' where
    r: "serveTree x h sched envs (Init req) (cache, s) = ([r], cache', s')"
    and t: "tree s' r = filter_tree ?F ?M"
    by (auto simp: Init_fields)
  have names: "\<forall>g \<in> set ?M. mset (map InstFS (Instances g)) =
      mset (map ?nm (filter (\<lambda>i. Key g \<in> ?K i) ?is))"
    using merged_instance_names assms(1) by blast
  have keys: "Key ` set ?M = (\<Union>i \<in> set ?is. ?K i)"
    using merged_keys [of h sched' envs' req] by auto
  have sel: "(dom ?F = {} \<or> lookup_bool ?F (?nm i)) \<longleftrightarrow> selected (FilterSource req) (source h ! i)" for i
    by (simp add: dom_sourceSet lookup_sourceSet selected_def)
  have 1: "Key ` set (tree s' r) =
      (\<Union>i \<in> {i. i < length (source h) \<and> selected (FilterSource req) (source h ! i)}. ?K i)"
    unfolding t filter_tree_keys [OF names keys, of ?F] using sel by auto
  have 2: "distinct (map Key (tree s' r))"
    unfolding t by (rule filter_tree_distinct) (rule merged_distinct)
  have 3: "Instances g \<noteq> [] \<and> mset (map InstFS (Instances g)) =
      mset (map ?nm (filter (\<lambda>i. selected (FilterSource req) (source h ! i) \<and> Key g \<in> ?K i) ?is))"
    if g: "g \<in> set (tree s' r)" for g
  proof -
    have g': "g \<in> set (filter_tree ?F ?M)" using g t by simp
    have "Instances g \<noteq> []" using g' names keys by (rule filter_tree_nonempty)
    moreover have "mset (map InstFS (Instances g)) =
        mset (map ?nm (filter (\<lambda>i. (dom ?F = {} \<or> lookup_bool ?F (?nm i)) \<and> Key g \<in> ?K i) ?is))"
      using g' names by (rule filter_tree_names)
    ultimately show ?thesis unfolding sel by simp
  qed
  have 5: "FilterSource req = [] \<longrightarrow> tree s' r = ?M"
    using t by (simp add: filter_tree_def dom_sourceSet)
  from r 1 2 3 t 5 show ?thesis by blast
qed

lemma cache_ok_append:
  assumes "cache_ok cache s"
  shows "cache_ok cache \<lparr>response_cells = response_cells s @ A, file_cells = file_cells s @ B\<rparr>"
  unfolding cache_ok_def
proof (intro allI impI)
  fix k a
  assume "cache k = Some a"
  with assms have a: "a < length (response_cells s)" "\<not> Finished (response_cells s ! a)"
    "\<forall>p \<in> set (Files (response_cells s ! a)). p < length (file_cells s)"
    unfolding cache_ok_def by blast+
  let ?s' = "\<lparr>response_cells = response_cells s @ A, file_cells = file_cells s @ B\<rparr>"
  have "response_cells ?s' ! a = response_cells s ! a" using a(1) by (simp add: nth_append)
  moreover have "a < length (response_cells ?s')" using a(1) by simp
  moreover have "\<forall>p \<in> set (Files (response_cells s ! a)). p < length (file_cells ?s')"
    using a(3) by auto
  ultimately show "a < length (response_cells ?s') \<and> \<not> Finished (response_cells ?s' ! a) \<and>
      (\<forall>p \<in> set (Files (response_cells ?s' ! a)). p < length (file_cells ?s'))"
    using a(2) by simp
qed

lemma map_nth_append_upt2:
  "map ((!) (xs @ ys @ zs)) [length xs ..< length xs + length ys] = ys"
  by (rule nth_equalityI) (simp_all add: nth_append)

lemma cache_ok_cell:
  assumes "cache_ok cache s" and "cache k = Some a"
  shows "a < length (response_cells s)" and "\<not> Finished (response_cells s ! a)"
    and "\<forall>p \<in> set (Files (response_cells s ! a)). p < length (file_cells s)"
  using assms unfolding cache_ok_def by blast+

lemma tree_append:
  assumes "\<forall>p \<in> set (Files r). p < length (file_cells s)"
  shows "tree \<lparr>response_cells = A, file_cells = file_cells s @ B\<rparr> r = tree s r"
  using assms by (simp add: tree_def nth_append)

lemma Finished_with_ID [simp]: "Finished (with_ID req r) = Finished r"
  by (simp add: with_ID_def)

lemma Files_with_ID [simp]: "Files (with_ID req r) = Files r"
  by (simp add: with_ID_def)

lemma serveTree_cache_ok:
  assumes "cache_ok cache s"
  shows "\<exists>r cache' s'. serveTree x h sched envs req (cache, s) = ([r], cache', s') \<and>
           \<not> Finished r \<and> cache_ok cache' s'"
proof (cases "cache (filepath_Join x (ReqPath req))")
  case None
  let ?M = "merged_tree h sched envs req"
  let ?R = "tree_Response req [length (file_cells s) ..< length (file_cells s) + length ?M]"
  from None serveTree_miss [where cache = cache and x = x and req = req and h = h
      and sched = sched and envs = envs and s = s]
  obtain fs K where
    e: "serveTree x h sched envs req (cache, s) =
            ([with_ID req (tree_Response req fs)],
             cache(filepath_Join x (ReqPath req) \<mapsto> length (response_cells s)),
             \<lparr>response_cells = response_cells s @ [?R, with_ID req (tree_Response req fs)],
              file_cells = file_cells s @ ?M @ K\<rparr>)"
    by blast
  let ?s' = "\<lparr>response_cells = response_cells s @ [?R, with_ID req (tree_Response req fs)],
              file_cells = file_cells s @ ?M @ K\<rparr>"
  have old: "cache_ok cache ?s'" using assms by (rule cache_ok_append)
  have "cache_ok (cache(filepath_Join x (ReqPath req) \<mapsto> length (response_cells s))) ?s'"
    unfolding cache_ok_def
  proof (intro allI impI)
    fix k a
    assume ka: "(cache(filepath_Join x (ReqPath req) \<mapsto> length (response_cells s))) k = Some a"
    show "a < length (response_cells ?s') \<and> \<not> Finished (response_cells ?s' ! a) \<and>
        (\<forall>p \<in> set (Files (response_cells ?s' ! a)). p < length (file_cells ?s'))"
    proof (cases "k = filepath_Join x (ReqPath req)")
      case True
      with ka have "a = length (response_cells s)" by simp
      then show ?thesis by (simp add: tree_Response_def)
    next
      case False
      with ka have "cache k = Some a" by simp
      with old show ?thesis unfolding cache_ok_def by blast
    qed
  qed
  moreover have "\<not> Finished (with_ID req (tree_Response req fs))" by (simp add: tree_Response_def)
  ultimately show ?thesis using e by blast
next
  case (Some a)
  note c = cache_ok_cell [OF assms Some]
  from Some c(1,3) serveTree_hit [where cache = cache and x = x and req = req and h = h
      and sched = sched and envs = envs and s = s and a = a]
  obtain fs K where
    e: "serveTree x h sched envs req (cache, s) =
            ([with_ID req ((response_cells s ! a)\<lparr>Files := fs\<rparr>)], cache,
             \<lparr>response_cells = response_cells s @ [with_ID req ((response_cells s ! a)\<lparr>Files := fs\<rparr>)],
              file_cells = file_cells s @ K\<rparr>)"
    by blast
  have "cache_ok cache \<lparr>response_cells = response_cells s @ [with_ID req ((response_cells s ! a)\<lparr>Files := fs\<rparr>)],
              file_cells = file_cells s @ K\<rparr>"
    using assms by (rule cache_ok_append)
  moreover have "\<not> Finished (with_ID req ((response_cells s ! a)\<lparr>Files := fs\<rparr>))" using c(2) by simp
  ultimately show ?thesis using e by blast
qed

subsection \<open>The handlers\<close>

lemma scan_body_sent:
  assumes "\<forall>r \<in> set (sent st). Q r" and "\<And>ls. Q (lines_Response m ls)"
  shows "\<forall>r \<in> set (sent (ctl_state (scan_body h req node path re m bytes st))). Q r"
proof -
  have mf: "\<forall>r \<in> set (sent (maybe_flush h m st0)). Q r" if "\<forall>r \<in> set (sent st0). Q r" for st0 :: "'a scan_state"
    using maybe_flush_sent [of h m st0] that assms(2) by auto
  obtain b w where c: "ctx_Err (world st) = (b, w)" by (cases "ctx_Err (world st)")
  obtain l0 mem where p: "parse h path bytes (parserMemory st) = (l0, mem)"
    by (cases "parse h path bytes (parserMemory st)")
  let ?line = "l0\<lparr>FileName := path, Offset := fileOffset st, LogFS := Name node, Line := lineNumber st\<rparr>"
  let ?st0 = "st\<lparr>world := w, parserMemory := mem, logLines := logLines st @ [?line],
                 lineNumber := lineNumber st + 1,
                 fileOffset := fileOffset st + int (length bytes)\<rparr>"
  have "\<forall>r \<in> set (sent (maybe_flush h m ?st0)). Q r" using assms(1) by (intro mf) simp
  then show ?thesis using c p assms(1) by (cases b) (simp_all add: scan_body_def Let_def)
qed

lemma scan_loop_sent:
  assumes "\<forall>r \<in> set (sent st). Q r" and "\<And>ls. Q (lines_Response m ls)"
  shows "\<forall>r \<in> set (sent (ctl_state (scan_loop h req node path re m xs st))). Q r"
  using assms(1)
proof (induction xs arbitrary: st)
  case Nil
  then show ?case by simp
next
  case (Cons b xs)
  note s = scan_body_sent [of st Q m h req node path re b, OF Cons.prems assms(2)]
  show ?case
  proof (cases "scan_body h req node path re m b st")
    case (Continue st1)
    with s Cons.IH [of st1] show ?thesis by simp
  next
    case (Return st1)
    with s show ?thesis by simp
  qed
qed

lemma read_responses:
  assumes "\<And>m ls. Q (lines_Response m ls)"
  shows "\<forall>r \<in> set (fst (read x h w req node path re)). Q r"
proof (cases "\<exists>info f. Lstat (SrcFS node) path = Some info \<and> \<not> InfoIsDir info \<and> Open (SrcFS node) path = Some f")
  case False
  then show ?thesis by (auto simp: read_def split: option.splits)
next
  case True
  then obtain info f where o: "Lstat (SrcFS node) path = Some info" "\<not> InfoIsDir info"
    "Open (SrcFS node) path = Some f" by blast
  obtain t0 w0 where t: "time_Now w = (t0, w0)" by (cases "time_Now w")
  let ?m = "read_Meta req node path"
  let ?res = "scan_loop h req node path re ?m (tokens f) (scan_init x t0 w0)"
  have s: "\<forall>r \<in> set (sent (ctl_state ?res)). Q r"
    by (rule scan_loop_sent) (simp_all add: scan_init_fields assms)
  show ?thesis
  proof (cases ?res)
    case (Continue st)
    with s o t assms show ?thesis by (simp add: read_def)
  next
    case (Return st)
    with s o t show ?thesis by (simp add: read_def)
  qed
qed

lemma searchNode_responses:
  assumes "\<And>m ls. Q (lines_Response m ls)"
  shows "\<forall>r \<in> set (searchNode x h w req node path re). Q r"
proof -
  let ?P = "\<lambda>out. \<forall>r \<in> set out. Q r"
  have "?P (snd (recurseTree h (searchNode_visit x h req node re) (Walk (SrcFS node) path) w []))"
  proof (rule recurseTree_inv)
    fix walker w' and a :: "Response list"
    assume a: "\<forall>r \<in> set a. Q r"
    obtain rs w'' where r: "read x h w' req node (wpath walker) (Some re) = (rs, w'')"
      by (cases "read x h w' req node (wpath walker) (Some re)")
    have "\<forall>r \<in> set rs. Q r"
      using read_responses [of Q x h w' req node "wpath walker" "Some re"] assms r by simp
    with a r show "\<forall>r \<in> set (snd (searchNode_visit x h req node re walker w' a)). Q r"
      by (auto simp: searchNode_visit_def)
  qed simp
  then show ?thesis by (simp add: searchNode_def)
qed

lemma set_fan_out: "q \<in> set (fan_out envs g srcs) \<Longrightarrow> \<exists>i < length srcs. q = g (envs i) (srcs ! i)"
  unfolding fan_out_eq by auto

lemma serveContent_responses:
  assumes "\<And>m ls. Q (lines_Response m ls)"
  shows "\<forall>r \<in> set (serveContent x h sched envs req). Q r"
proof
  fix r assume "r \<in> set (serveContent x h sched envs req)"
  then obtain q where q: "q \<in> set (fan_out envs
          (\<lambda>w src. fst (read x h w req src (Join (SrcFS src) (ReqPath req)) None))
          (filterSources (source h) (filterSourceMap req)))" "r \<in> set q"
    unfolding serveContent_def set_weave by blast
  from set_fan_out [OF q(1)] q(2) read_responses [of Q, OF assms] show "Q r" by blast
qed

lemma search_responses:
  assumes "\<And>m ls. Q (lines_Response m ls)" and "regexp_Compile x (Regexp req) = Inr re"
  shows "\<forall>r \<in> set (search x h sched envs req). Q r"
proof
  have e: "search x h sched envs req = weave sched (fan_out envs
          (\<lambda>w node. searchNode x h w req node (Join (SrcFS node) (ReqPath req)) re)
          (filterSources (source h) (filterSourceMap req)))"
    using assms(2) by (simp add: search_def)
  fix r assume "r \<in> set (search x h sched envs req)"
  then obtain q where q: "q \<in> set (fan_out envs
          (\<lambda>w node. searchNode x h w req node (Join (SrcFS node) (ReqPath req)) re)
          (filterSources (source h) (filterSourceMap req)))" "r \<in> set q"
    unfolding e set_weave by blast
  from set_fan_out [OF q(1)] q(2) searchNode_responses [of Q, OF assms(1)] show "Q r" by blast
qed

lemma handler_unfinished:
  "\<forall>r \<in> set (serveContent x h sched envs req). \<not> Finished r"
  "\<forall>r \<in> set (search x h sched envs req). \<not> Finished r"
proof -
  show "\<forall>r \<in> set (serveContent x h sched envs req). \<not> Finished r"
    by (rule serveContent_responses) (simp add: lines_Response_def)
  show "\<forall>r \<in> set (search x h sched envs req). \<not> Finished r"
  proof (cases "regexp_Compile x (Regexp req)")
    case (Inl err)
    then show ?thesis by (simp add: search_def error_Response_def)
  next
    case (Inr re)
    show ?thesis by (rule search_responses [OF _ Inr]) (simp add: lines_Response_def)
  qed
qed

lemma New_zero_maps:
  "excludeDirs (New zero_Config srcs p) = Map.empty"
  "excludeExtensions (New zero_Config srcs p) = Map.empty"
  by (simp_all add: New_def zero_Config_def list2Map_def Let_def)

lemma finished_Response_Init: "finished_Response (Init req) = finished_Response req"
  by (simp add: finished_Response_def Init_fields)

lemma error_Response_Init: "error_Response (Init req) err = error_Response req err"
  by (simp add: error_Response_def Init_fields)

lemma cache_ok_empty: "cache_ok Map.empty empty_store"
  by (simp add: cache_ok_def)

lemma New_gz_fields:
  "source (New gz_Config srcs p) = srcs"
  "excludeDirs (New gz_Config srcs p) = Map.empty"
  "excludeExtensions (New gz_Config srcs p) = [''.gz'' \<mapsto> True]"
  by (simp_all add: New_def gz_Config_def zero_Config_def list2Map_def Let_def)

lemmas tree_eval =
  ServeHTTP_request_def serve_def serveTree_def walk_all_def fan_out_def srcTree_def srcTree_visit_def
  files_fs_def ctx_Err_def never_cancelled_def cancelled_after_def New_gz_fields gz_nodes_def
  filepath_Base_def filepath_Ext_def trim_sep_def Let_def tree_request_def Init_def sourceSet_def
  fixture_extern_def empty_store_def newCombiner_def add_def new_File_def new_Response_def
  append_Instance_def Response_FilterSources_def sent_tree_def tree_def finished_Response_def

section \<open>The claims\<close>

text \<open>
  C1 (the terminal marker). Whatever the action, the schedule of the source
  goroutines and the moment of a cancellation in each of them: what an accepted
  request sends is a sequence of unfinished responses followed by one response
  with \<open>finished = true\<close>, which carries the request's meta and no lines, no tree
  and no error. The responses held by the tree cache are unfinished, and stay
  so.
\<close>

theorem finished_marker_once_and_last:
  assumes "cache_ok cache s"
  shows "\<exists>pre cache' s'.
           ServeHTTP_request x h sched envs req (cache, s) = (pre @ [finished_Response req], cache', s') \<and>
           (\<forall>r \<in> set pre. \<not> Finished r) \<and>
           Finished (finished_Response req) \<and>
           Meta (finished_Response req) = ReqMeta req \<and>
           Lines (finished_Response req) = [] \<and>
           Files (finished_Response req) = [] \<and>
           Error (finished_Response req) = [] \<and>
           cache_ok cache' s'"
proof -
  let ?req = "Init req"
  have m: "Finished (finished_Response req) \<and> Meta (finished_Response req) = ReqMeta req \<and>
      Lines (finished_Response req) = [] \<and> Files (finished_Response req) = [] \<and>
      Error (finished_Response req) = []"
    by (simp add: finished_Response_def)
  have "\<exists>pre cache' s'.
      (if Action (ReqMeta ?req) = ''get-file-tree'' then serveTree x h sched envs ?req (cache, s)
       else if Action (ReqMeta ?req) = ''get-content''
       then (serveContent x h sched envs ?req, (cache, s))
       else if Action (ReqMeta ?req) = ''search''
       then (search x h sched envs ?req, (cache, s))
       else ([], (cache, s))) = (pre, cache', s') \<and>
      (\<forall>r \<in> set pre. \<not> Finished r) \<and> cache_ok cache' s'"
  proof (cases "Action (ReqMeta ?req) = ''get-file-tree''")
    case True
    from serveTree_cache_ok [OF assms, of x h sched envs ?req] True show ?thesis by auto
  next
    case False
    then show ?thesis using assms handler_unfinished [of x h sched envs ?req] by simp
  qed
  then obtain pre cache' s' where
    p: "(if Action (ReqMeta ?req) = ''get-file-tree'' then serveTree x h sched envs ?req (cache, s)
       else if Action (ReqMeta ?req) = ''get-content''
       then (serveContent x h sched envs ?req, (cache, s))
       else if Action (ReqMeta ?req) = ''search''
       then (search x h sched envs ?req, (cache, s))
       else ([], (cache, s))) = (pre, cache', s')"
    and u: "\<forall>r \<in> set pre. \<not> Finished r" and c: "cache_ok cache' s'"
    by (elim exE conjE)
  have "ServeHTTP_request x h sched envs req (cache, s) = (pre @ [finished_Response req], cache', s')"
    unfolding ServeHTTP_request_def serve_def p by (simp add: finished_Response_Init)
  with u c m show ?thesis by (intro exI [of _ pre] exI [of _ cache'] exI [of _ s']) simp
qed

text \<open>
  At a get-content over two sources, each cancelled after its first check, with
  an empty cache.
\<close>

theorem finished_marker_once_and_last_witness:
  "\<exists>pre cache' s'.
     ServeHTTP_request fixture_extern (New zero_Config two_nodes raw_parse) [1, 0] (\<lambda>i. cancelled_after 1)
       (fixture_request ''get-content'') (Map.empty, empty_store)
       = (pre @ [finished_Response (fixture_request ''get-content'')], cache', s') \<and>
     (\<forall>r \<in> set pre. \<not> Finished r) \<and>
     Finished (finished_Response (fixture_request ''get-content'')) \<and>
     Meta (finished_Response (fixture_request ''get-content'')) = ReqMeta (fixture_request ''get-content'') \<and>
     Lines (finished_Response (fixture_request ''get-content'')) = [] \<and>
     Files (finished_Response (fixture_request ''get-content'')) = [] \<and>
     Error (finished_Response (fixture_request ''get-content'')) = [] \<and>
     cache_ok cache' s'"
  by (rule finished_marker_once_and_last) (rule cache_ok_empty)

text \<open>
  C2 (the merged tree). The claim: the keys of the tree a get-file-tree request
  sends are the union of the keys walked in the sources that pass \<open>filter_fs\<close>,
  after the exclusion policy, and a file has one instance for every such source
  in which its key exists. The walk of a source stops at a cancellation, and
  \<open>serveTree\<close> stores the tree the walks have built in the cache without looking
  at the context; the dispatcher cancels a request as soon as the next one
  arrives. At a registry of two sources, \<open>node1\<close> with \<open>app.log\<close> and \<open>node2\<close> with
  \<open>app.log\<close>, \<open>b.log\<close> and \<open>c.gz\<close>, where \<open>.gz\<close> is excluded: a request that is not
  cancelled, on an empty cache, sends \<open>app.log\<close> (both sources) and \<open>b.log\<close>; a
  request cancelled at the third check of each walk sends, and stores,
  \<open>app.log\<close> alone; the request after it is not cancelled, and the walk of
  \<open>node2\<close> in its context yields \<open>app.log\<close> and \<open>b.log\<close>, but it is sent the stored
  tree and then the terminal marker: \<open>b.log\<close>, which exists in \<open>node2\<close>, is not in
  the tree.
\<close>

theorem cancelled_walk_tree_is_cached:
  "sent_tree (ServeHTTP_request fixture_extern (New gz_Config gz_nodes raw_parse) []
        (\<lambda>i. never_cancelled) (tree_request []) (Map.empty, empty_store))
     = [\<lparr>Key = ''app.log'', FilePath = [''app.log''], IsDir = False,
          Instances = [\<lparr>Size = 7, InstFS = ''node1''\<rparr>, \<lparr>Size = 7, InstFS = ''node2''\<rparr>]\<rparr>,
        \<lparr>Key = ''b.log'', FilePath = [''b.log''], IsDir = False,
          Instances = [\<lparr>Size = 7, InstFS = ''node2''\<rparr>]\<rparr>]
   \<and> sent_tree (ServeHTTP_request fixture_extern (New gz_Config gz_nodes raw_parse) []
        (\<lambda>i. cancelled_after 2) (tree_request []) (Map.empty, empty_store))
     = [\<lparr>Key = ''app.log'', FilePath = [''app.log''], IsDir = False,
          Instances = [\<lparr>Size = 7, InstFS = ''node1''\<rparr>, \<lparr>Size = 7, InstFS = ''node2''\<rparr>]\<rparr>]
   \<and> sent_tree (ServeHTTP_request fixture_extern (New gz_Config gz_nodes raw_parse) []
        (\<lambda>i. never_cancelled) (tree_request [])
        (snd (ServeHTTP_request fixture_extern (New gz_Config gz_nodes raw_parse) []
               (\<lambda>i. cancelled_after 2) (tree_request []) (Map.empty, empty_store))))
     = [\<lparr>Key = ''app.log'', FilePath = [''app.log''], IsDir = False,
          Instances = [\<lparr>Size = 7, InstFS = ''node1''\<rparr>, \<lparr>Size = 7, InstFS = ''node2''\<rparr>]\<rparr>]
   \<and> map Finished (fst (ServeHTTP_request fixture_extern (New gz_Config gz_nodes raw_parse) []
        (\<lambda>i. never_cancelled) (tree_request [])
        (snd (ServeHTTP_request fixture_extern (New gz_Config gz_nodes raw_parse) []
               (\<lambda>i. cancelled_after 2) (tree_request []) (Map.empty, empty_store)))))
     = [False, True]
   \<and> walked_keys (New gz_Config gz_nodes raw_parse) (\<lambda>i. never_cancelled) (tree_request []) 0
     = {''app.log''}
   \<and> walked_keys (New gz_Config gz_nodes raw_parse) (\<lambda>i. never_cancelled) (tree_request []) 1
     = {''app.log'', ''b.log''}"
  by (simp_all add: walked_keys_def walked_def tree_eval)

text \<open>
  C3 (the search cap). The claim: the matched lines emitted for one file never
  exceed \<open>search_max_size\<close>, and the scan of the file stops at the cap. The code
  compares the cap with the length of the current batch, which every flush
  empties, so with the defaults (batch 2000, cap 5000) the cap is never reached:
  a file of 5001 matching lines is emitted whole, although \<open>SearchMaxSize\<close> is
  5000.
\<close>

theorem search_cap_not_enforced:
  "length (lines_of (fst (read fixture_extern
      (New zero_Config [fixture_node \<lparr>tokens = replicate 5001 ''x'', scanErr = False\<rparr>] raw_parse)
      never_cancelled (fixture_request ''search'')
      (fixture_node \<lparr>tokens = replicate 5001 ''x'', scanErr = False\<rparr>) ''app.log''
      (Some (\<lambda>msg. True))))) = 5001
   \<and> SearchMaxSize (New zero_Config [fixture_node \<lparr>tokens = replicate 5001 ''x'', scanErr = False\<rparr>] raw_parse) = 5000"
proof -
  let ?f = "\<lparr>tokens = replicate 5001 ''x'', scanErr = False\<rparr>"
  let ?h = "New zero_Config [fixture_node ?f] raw_parse :: unit handler"
  let ?re = "Some (\<lambda>msg::string. True)"
  have idle: "cap_idle ?h ?re" by (simp add: cap_idle_def New_zero_fields)
  have nc: "cancel_after never_cancelled = None" by (simp add: never_cancelled_def)
  have op: "\<And>r. Open (SrcFS (fixture_node ?f)) ''app.log'' = Some r \<Longrightarrow> \<not> scanErr r"
    by (auto simp: fixture_node_def fixture_fs_def)
  have keep: "\<forall>l \<in> set (parsed ?h ''app.log'' (replicate 5001 ''x'') ()).
      \<not> no_match ?re l \<and> \<not> filterOutTime l (FilterTime (fixture_request ''search''))"
    by (simp add: no_match_def filterOutTime_def fixture_request_def)
  have "file_lines fixture_extern ?h (fixture_request ''search'') (fixture_node ?f) ''app.log'' ?re
      = spec_lines ?h (fixture_request ''search'') (fixture_node ?f) ''app.log'' ?re (replicate 5001 ''x'') () 1 0"
    by (simp add: file_lines_def fixture_node_def fixture_fs_def fixture_extern_def)
  with spec_lines_length [OF keep] read_complete [OF nc idle op, where x = fixture_extern and req = "fixture_request ''search''"]
  show ?thesis by (simp add: New_zero_fields)
qed

text \<open>
  C4 (the time filter). The claim: a line whose time is after \<open>end\<close> is dropped
  whenever \<open>end\<close> is set. The code returns from the \<open>start\<close> test without looking
  at \<open>end\<close>: with \<open>start = 0\<close> and \<open>end = 10\<close>, a line of time 20 is kept.
\<close>

theorem filterOutTime_ignores_end_when_start_set:
  "filterOutTime \<lparr>Msg = ''late'', Level = [], Time = Some 20, LogFS = [], FileName = [], Line = 1, Offset = 0\<rparr>
     \<lparr>Start = Some 0, End = Some 10\<rparr> = False"
  by (simp add: filterOutTime_def)

text \<open>
  C5 (the lines of a get-content), as amended. For a file that is not a
  directory and opens, read without a regexp: the lines of the responses, taken
  together in the order sent, are numbered 1, 2, 3, ... and their offsets never
  decrease; and when the read is not cancelled, the scanner reports no error and
  no line is dropped by the time filter, there are as many lines as the scanner
  yielded.
\<close>

theorem content_lines_numbered_and_counted:
  assumes "Lstat (SrcFS node) path = Some info" and "\<not> InfoIsDir info"
    and "Open (SrcFS node) path = Some f"
  shows "(\<forall>i < length (lines_of (fst (read x h w req node path None))).
            Line (lines_of (fst (read x h w req node path None)) ! i) = 1 + int i)
       \<and> sorted (map Offset (lines_of (fst (read x h w req node path None))))
       \<and> (cancel_after w = None \<and> \<not> scanErr f \<and>
            (\<forall>l \<in> set (parsed h path (tokens f) (new_Memory x)). \<not> filterOutTime l (FilterTime req))
          \<longrightarrow> length (lines_of (fst (read x h w req node path None))) = length (tokens f))"
proof -
  let ?ls = "lines_of (fst (read x h w req node path None))"
  let ?fl = "file_lines x h req node path None"
  have p: "prefix ?ls ?fl" by (rule read_prefix)
  have n: "\<forall>i < length ?ls. Line (?ls ! i) = 1 + int i"
  proof (intro allI impI)
    fix i assume i: "i < length ?ls"
    then have "i < length ?fl" using p prefix_length_le by fastforce
    then show "Line (?ls ! i) = 1 + int i"
      using prefix_nth [OF p i] file_lines_numbered by metis
  qed
  have s: "sorted (map Offset ?ls)" using p file_lines_sorted by (rule prefix_sorted_map)
  have c: "length ?ls = length (tokens f)"
    if a: "cancel_after w = None" "\<not> scanErr f"
      "\<forall>l \<in> set (parsed h path (tokens f) (new_Memory x)). \<not> filterOutTime l (FilterTime req)"
  proof -
    have "?ls = ?fl" using a(1,2) assms(3) by (intro read_complete) (simp_all add: cap_idle_def)
    moreover have "length (spec_lines h req node path None (tokens f) (new_Memory x) 1 0) = length (tokens f)"
      using a(3) by (intro spec_lines_length) (simp add: no_match_def)
    ultimately show ?thesis using file_lines_open [OF assms, of x h req None] by simp
  qed
  from n s c show ?thesis by blast
qed

text \<open>
  At a file of two lines, read to its end.
\<close>

theorem content_lines_numbered_and_counted_witness:
  "lines_of (fst (read fixture_extern (New zero_Config [fixture_node two_lines] raw_parse)
       never_cancelled (fixture_request ''get-content'') (fixture_node two_lines) ''app.log'' None))
   = [\<lparr>Msg = ''first'', Level = [], Time = None, LogFS = ''node1'', FileName = ''app.log'', Line = 1, Offset = 0\<rparr>,
      \<lparr>Msg = ''second'', Level = [], Time = None, LogFS = ''node1'', FileName = ''app.log'', Line = 2, Offset = 5\<rparr>]
   \<and> length (lines_of (fst (read fixture_extern (New zero_Config [fixture_node two_lines] raw_parse)
       never_cancelled (fixture_request ''get-content'') (fixture_node two_lines) ''app.log'' None)))
     = length (tokens two_lines)"
proof -
  have a: "\<forall>l \<in> set (parsed (New zero_Config [fixture_node two_lines] raw_parse) ''app.log''
              (tokens two_lines) (new_Memory fixture_extern)).
            \<not> filterOutTime l (FilterTime (fixture_request ''get-content''))"
    by (simp add: filterOutTime_def fixture_request_def)
  have b: "cancel_after never_cancelled = None \<and> \<not> scanErr two_lines"
    by (simp add: never_cancelled_def two_lines_def)
  from content_lines_numbered_and_counted [OF fixture_open(1) _ fixture_open(2),
      where f = two_lines and x = fixture_extern
        and h = "New zero_Config [fixture_node two_lines] raw_parse"
        and w = never_cancelled and req = "fixture_request ''get-content''"] a b
  have "length (lines_of (fst (read fixture_extern (New zero_Config [fixture_node two_lines] raw_parse)
       never_cancelled (fixture_request ''get-content'') (fixture_node two_lines) ''app.log'' None)))
     = length (tokens two_lines)" by simp
  moreover have "lines_of (fst (read fixture_extern (New zero_Config [fixture_node two_lines] raw_parse)
       never_cancelled (fixture_request ''get-content'') (fixture_node two_lines) ''app.log'' None))
   = [\<lparr>Msg = ''first'', Level = [], Time = None, LogFS = ''node1'', FileName = ''app.log'', Line = 1, Offset = 0\<rparr>,
      \<lparr>Msg = ''second'', Level = [], Time = None, LogFS = ''node1'', FileName = ''app.log'', Line = 2, Offset = 5\<rparr>]"
    by (simp add: read_eval two_lines_def)
  ultimately show ?thesis by simp
qed

text \<open>
  C5 as stated (the count for every get-content) fails: a read cancelled at its
  second check, and a read whose scanner ends with an error, return before the
  batch they hold is sent, so a file of two lines, and of one line, yield no
  line at all.
\<close>

theorem content_count_counterexample:
  "length (lines_of (fst (read fixture_extern (New zero_Config [fixture_node two_lines] raw_parse)
       (cancelled_after 1) (fixture_request ''get-content'') (fixture_node two_lines) ''app.log'' None)))
     \<noteq> length (tokens two_lines)
   \<and> length (lines_of (fst (read fixture_extern (New zero_Config [fixture_node torn_line] raw_parse)
       never_cancelled (fixture_request ''get-content'') (fixture_node torn_line) ''app.log'' None)))
     \<noteq> length (tokens torn_line)"
  by (simp add: read_eval two_lines_def torn_line_def)

text \<open>
  C6 (the end of the file), as amended. When the scan loop reaches the end of
  the file and the scanner reports no error, the read sends, after the batches
  it has flushed, one more response with the residual batch exactly when that
  batch is not empty, or no batch was flushed and no regexp is in effect. Hence
  a get-content of an empty file whose scanner reports no error sends one
  response with an empty list of lines (cancelled or not: the loop makes no
  check), and so does a get-content of a file whose lines are all dropped by the
  time filter, when the read is not cancelled and the scanner reports no error;
  a search of a file in which no line matches sends nothing.
\<close>

theorem end_of_file_response:
  assumes "Lstat (SrcFS node) path = Some info" and "\<not> InfoIsDir info"
    and "Open (SrcFS node) path = Some f"
  shows "(\<forall>t0 w0 st. time_Now w = (t0, w0) \<and> \<not> scanErr f \<and>
            scan_loop h req node path re (read_Meta req node path) (tokens f) (scan_init x t0 w0)
              = Continue st \<longrightarrow>
            fst (read x h w req node path re) =
              sent st @ (if logLines st \<noteq> [] \<or> (\<not> sentAny st \<and> re = None)
                         then [lines_Response (read_Meta req node path) (logLines st)] else []))
       \<and> (tokens f = [] \<and> \<not> scanErr f \<longrightarrow>
            fst (read x h w req node path None) = [lines_Response (read_Meta req node path) []])
       \<and> (cancel_after w = None \<and> \<not> scanErr f \<and>
            (\<forall>l \<in> set (parsed h path (tokens f) (new_Memory x)). filterOutTime l (FilterTime req)) \<longrightarrow>
            fst (read x h w req node path None) = [lines_Response (read_Meta req node path) []])
       \<and> (\<forall>r. (\<forall>l \<in> set (parsed h path (tokens f) (new_Memory x)). \<not> r (Msg l)) \<longrightarrow>
            fst (read x h w req node path (Some r)) = [])"
proof (intro conjI allI impI)
  fix t0 w0 st
  assume "time_Now w = (t0, w0) \<and> \<not> scanErr f \<and>
            scan_loop h req node path re (read_Meta req node path) (tokens f) (scan_init x t0 w0)
              = Continue st"
  then show "fst (read x h w req node path re) =
              sent st @ (if logLines st \<noteq> [] \<or> (\<not> sentAny st \<and> re = None)
                         then [lines_Response (read_Meta req node path) (logLines st)] else [])"
    using assms by (auto simp: read_def)
next
  assume "tokens f = [] \<and> \<not> scanErr f"
  then show "fst (read x h w req node path None) = [lines_Response (read_Meta req node path) []]"
    using assms by (simp add: read_def scan_init_def split: prod.splits)
next
  assume a: "cancel_after w = None \<and> \<not> scanErr f \<and>
            (\<forall>l \<in> set (parsed h path (tokens f) (new_Memory x)). filterOutTime l (FilterTime req))"
  obtain t0 w0 where t: "time_Now w = (t0, w0)" by (cases "time_Now w")
  have w0: "cancel_after w0 = None" using t a by (auto simp: time_Now_def)
  let ?m = "read_Meta req node path"
  from scan_loop_runs [of "scan_init x t0 w0" h None req node path ?m "tokens f"] w0
  obtain st where st: "scan_loop h req node path None ?m (tokens f) (scan_init x t0 w0) = Continue st"
    by (auto simp: scan_init_fields cap_idle_def)
  have e: "spec_lines h req node path None (tokens f) (new_Memory x) 1 0 = []"
    using a by (intro spec_lines_all_dropped) simp
  from read_silent [OF assms e t] st have "sent st = []" "logLines st = []" "\<not> sentAny st" by simp_all
  then show "fst (read x h w req node path None) = [lines_Response ?m []]"
    using assms t st a by (simp add: read_def)
next
  fix r
  assume a: "\<forall>l \<in> set (parsed h path (tokens f) (new_Memory x)). \<not> r (Msg l)"
  obtain t0 w0 where t: "time_Now w = (t0, w0)" by (cases "time_Now w")
  have e: "spec_lines h req node path (Some r) (tokens f) (new_Memory x) 1 0 = []"
    using a by (intro spec_lines_no_match) (simp add: no_match_def)
  note s = read_silent [OF assms e t]
  show "fst (read x h w req node path (Some r)) = []"
  proof (cases "scan_loop h req node path (Some r) (read_Meta req node path) (tokens f) (scan_init x t0 w0)")
    case (Continue st)
    with s assms t show ?thesis by (simp add: read_def)
  next
    case (Return st)
    with s assms t show ?thesis by (simp add: read_def)
  qed
qed

text \<open>
  At a file of two lines read whole, at an empty file under a cancelled
  context, at a file whose two lines are older than \<open>start\<close>, and at a search
  for a message the file does not have.
\<close>

theorem end_of_file_response_witness:
  "fst (read fixture_extern (New zero_Config [fixture_node two_lines] raw_parse) never_cancelled
        (fixture_request ''get-content'') (fixture_node two_lines) ''app.log'' None)
     = [lines_Response \<lparr>ID = 9, Action = ''get-content'', FS = ''node1'', Path = [''app.log'']\<rparr>
          [\<lparr>Msg = ''first'', Level = [], Time = None, LogFS = ''node1'', FileName = ''app.log'', Line = 1, Offset = 0\<rparr>,
           \<lparr>Msg = ''second'', Level = [], Time = None, LogFS = ''node1'', FileName = ''app.log'', Line = 2, Offset = 5\<rparr>]]
   \<and> fst (read fixture_extern (New zero_Config [fixture_node empty_file] raw_parse) (cancelled_after 0)
        (fixture_request ''get-content'') (fixture_node empty_file) ''app.log'' None)
     = [lines_Response \<lparr>ID = 9, Action = ''get-content'', FS = ''node1'', Path = [''app.log'']\<rparr> []]
   \<and> fst (read fixture_extern (New zero_Config [fixture_node old_only] timed_parse) never_cancelled
        since_4 (fixture_node old_only) ''app.log'' None)
     = [lines_Response \<lparr>ID = 9, Action = ''get-content'', FS = ''node1'', Path = [''app.log'']\<rparr> []]
   \<and> fst (read fixture_extern (New zero_Config [fixture_node two_lines] raw_parse) never_cancelled
        (fixture_request ''search'') (fixture_node two_lines) ''app.log'' (Some (\<lambda>msg. msg = ''third'')))
     = []"
proof -
  let ?h = "\<lambda>f. New zero_Config [fixture_node f] raw_parse :: unit handler"
  note t = end_of_file_response [OF fixture_open(1) _ fixture_open(2), where x = fixture_extern
      and w = never_cancelled]
  note u = end_of_file_response [OF fixture_open(1) _ fixture_open(2), where x = fixture_extern
      and w = "cancelled_after 0"]
  have d: "\<not> InfoIsDir \<lparr>InfoIsDir = False, InfoSize = 7\<rparr>" by simp
  have 1: "fst (read fixture_extern (?h two_lines) never_cancelled
        (fixture_request ''get-content'') (fixture_node two_lines) ''app.log'' None)
     = [lines_Response \<lparr>ID = 9, Action = ''get-content'', FS = ''node1'', Path = [''app.log'']\<rparr>
          [\<lparr>Msg = ''first'', Level = [], Time = None, LogFS = ''node1'', FileName = ''app.log'', Line = 1, Offset = 0\<rparr>,
           \<lparr>Msg = ''second'', Level = [], Time = None, LogFS = ''node1'', FileName = ''app.log'', Line = 2, Offset = 5\<rparr>]]"
    using t [OF d, where f = two_lines and h = "?h two_lines" and req = "fixture_request ''get-content''"
        and re = None, THEN conjunct1, rule_format,
        of 0 "\<lparr>cancel_after = None, clock = (\<lambda>k. 0)\<rparr>"]
    by (simp add: two_lines_def time_Now_def never_cancelled_def scan_init_def scan_body_def ctx_Err_def
        New_zero_fields raw_parse_def no_match_def filterOutTime_def fixture_request_def Let_def
        maybe_flush_def fixture_open read_Meta_def)
  have 2: "fst (read fixture_extern (?h empty_file) (cancelled_after 0)
        (fixture_request ''get-content'') (fixture_node empty_file) ''app.log'' None)
     = [lines_Response \<lparr>ID = 9, Action = ''get-content'', FS = ''node1'', Path = [''app.log'']\<rparr> []]"
    using u [OF d, where f = empty_file and h = "?h empty_file" and req = "fixture_request ''get-content''"
        and re = None, THEN conjunct2, THEN conjunct1]
    by (simp add: empty_file_def fixture_Meta)
  have m4: "read_Meta since_4 (fixture_node old_only) ''app.log''
      = \<lparr>ID = 9, Action = ''get-content'', FS = ''node1'', Path = [''app.log'']\<rparr>"
    by (simp add: since_4_def read_Meta_def fixture_request_def fixture_open)
  have 4: "fst (read fixture_extern (New zero_Config [fixture_node old_only] timed_parse) never_cancelled
        since_4 (fixture_node old_only) ''app.log'' None)
     = [lines_Response \<lparr>ID = 9, Action = ''get-content'', FS = ''node1'', Path = [''app.log'']\<rparr> []]"
  proof -
    have hyp: "cancel_after never_cancelled = None \<and> \<not> scanErr old_only \<and>
        (\<forall>l \<in> set (parsed (New zero_Config [fixture_node old_only] timed_parse) ''app.log''
                     (tokens old_only) (new_Memory fixture_extern)).
           filterOutTime l (FilterTime since_4))"
      by (simp add: old_only_def never_cancelled_def New_zero_fields timed_parse_def
          filterOutTime_def since_4_def)
    from t [OF d, where f = old_only and h = "New zero_Config [fixture_node old_only] timed_parse"
        and req = since_4 and re = None, THEN conjunct2, THEN conjunct2, THEN conjunct1,
        THEN mp, OF hyp]
    show ?thesis unfolding m4 .
  qed
  have 3: "fst (read fixture_extern (?h two_lines) never_cancelled
        (fixture_request ''search'') (fixture_node two_lines) ''app.log'' (Some (\<lambda>msg. msg = ''third'')))
     = []"
  proof -
    have "\<forall>l \<in> set (parsed (?h two_lines) ''app.log'' (tokens two_lines) (new_Memory fixture_extern)).
            Msg l \<noteq> ''third''"
      by (simp add: two_lines_def New_zero_fields raw_parse_def)
    then show ?thesis
      using t [OF d, where f = two_lines and h = "?h two_lines" and req = "fixture_request ''search''"
        and re = None, THEN conjunct2, THEN conjunct2, THEN conjunct2, rule_format,
        of "\<lambda>msg. msg = ''third''"]
      by blast
  qed
  from 1 2 4 3 show ?thesis by (intro conjI)
qed

text \<open>
  C6 as stated (one empty response for every get-content of a fully filtered
  file) fails: a read cancelled at its second check, and a read whose scanner
  ends with an error, return before the end-of-file rule is reached. Of a file
  whose lines are all older than \<open>start\<close>, the first read sends nothing (the
  request sends the terminal marker alone), and neither does the second.
\<close>

theorem end_of_file_counterexample:
  "list_all (\<lambda>l. filterOutTime l (FilterTime since_4))
      (parsed (New zero_Config [fixture_node old_only] timed_parse) ''app.log'' (tokens old_only) ())
   \<and> fst (read fixture_extern (New zero_Config [fixture_node old_only] timed_parse) (cancelled_after 1)
        since_4 (fixture_node old_only) ''app.log'' None) = []
   \<and> fst (ServeHTTP_request fixture_extern (New zero_Config [fixture_node old_only] timed_parse) []
        (\<lambda>i. cancelled_after 1) since_4 (Map.empty, empty_store)) = [finished_Response since_4]
   \<and> list_all (\<lambda>l. filterOutTime l (FilterTime since_4))
      (parsed (New zero_Config [fixture_node old_torn] timed_parse) ''app.log'' (tokens old_torn) ())
   \<and> fst (read fixture_extern (New zero_Config [fixture_node old_torn] timed_parse) never_cancelled
        since_4 (fixture_node old_torn) ''app.log'' None) = []"
proof (intro conjI)
  show "fst (ServeHTTP_request fixture_extern (New zero_Config [fixture_node old_only] timed_parse) []
        (\<lambda>i. cancelled_after 1) since_4 (Map.empty, empty_store)) = [finished_Response since_4]"
    by (simp add: ServeHTTP_request_def serve_def serveContent_def fan_out_def filterSources_def
        Init_def sourceSet_def fixture_node_def fixture_fs_def read_eval old_only_def since_4_def
        finished_Response_def)
qed (simp_all add: read_eval old_only_def old_torn_def since_4_def)

text \<open>
  C7 (a regexp that does not compile). A search whose regexp is rejected by
  \<open>regexp.Compile\<close> sends the error response and then the terminal marker, and
  nothing else; the error string is not empty and the response carries no lines.
  The result does not depend on the sources, the schedule or the environments
  (no source is walked or read), and the cache and the store are left as they
  were.
\<close>

theorem bad_regexp_one_error_then_marker:
  assumes "Action (ReqMeta req) = ''search''"
    and "regexp_Compile x (Regexp req) = Inl err"
  shows "ServeHTTP_request x h sched envs req (cache, s)
           = ([error_Response req err, finished_Response req], cache, s) \<and>
         Error (error_Response req err) = ''Bad regexp '' @ Regexp req @ '': '' @ err \<and>
         Error (error_Response req err) \<noteq> [] \<and>
         Lines (error_Response req err) = [] \<and>
         Files (error_Response req err) = [] \<and>
         \<not> Finished (error_Response req err) \<and>
         Meta (error_Response req err) = ReqMeta req"
  using assms
  by (simp add: ServeHTTP_request_def serve_def search_def Init_fields error_Response_Init
      finished_Response_Init) (simp add: error_Response_def)

text \<open>
  At the regexp \<open>(\<close>, which the registry's compiler rejects.
\<close>

theorem bad_regexp_one_error_then_marker_witness:
  "ServeHTTP_request fixture_extern (New zero_Config two_nodes raw_parse) [1, 0] (\<lambda>i. never_cancelled)
     bad_search (Map.empty, empty_store)
     = ([\<lparr>Meta = \<lparr>ID = 9, Action = ''search'', FS = [], Path = []\<rparr>, Lines = [], Files = [],
          Error = ''Bad regexp (: missing closing )'', Finished = False\<rparr>,
         \<lparr>Meta = \<lparr>ID = 9, Action = ''search'', FS = [], Path = []\<rparr>, Lines = [], Files = [],
          Error = [], Finished = True\<rparr>],
        Map.empty, empty_store)"
proof -
  have a: "Action (ReqMeta bad_search) = ''search''"
    by (simp add: bad_search_def fixture_request_def)
  have c: "regexp_Compile fixture_extern (Regexp bad_search) = Inl ''missing closing )''"
    by (simp add: bad_search_def fixture_extern_def)
  from bad_regexp_one_error_then_marker [OF a c, THEN conjunct1,
      of "New zero_Config two_nodes raw_parse" "[1, 0]" "\<lambda>i. never_cancelled" Map.empty empty_store]
  show ?thesis
    by (simp add: error_Response_def finished_Response_def bad_search_def fixture_request_def)
qed

text \<open>
  C8 (what a search emits). With a regexp that compiles, every line of every
  response of the search has a message the regexp matches. The test is made on
  the \<open>Msg\<close> of the \<open>Log\<close> the parser returns for the line, not on the bytes of the
  line. A line whose message does not match is not emitted: the iteration only
  moves the line number by one and the offset by the length of the line.
\<close>

theorem search_emits_matching_lines_only:
  assumes "regexp_Compile x (Regexp req) = Inr re"
  shows "(\<forall>resp \<in> set (search x h sched envs req). \<forall>l \<in> set (Lines resp). re (Msg l))
       \<and> (\<forall>node path m bytes st w1 l0 m1.
            ctx_Err (world st) = (False, w1) \<and>
            parse h path bytes (parserMemory st) = (l0, m1) \<and> \<not> re (Msg l0) \<longrightarrow>
            scan_body h req node path (Some re) m bytes st =
              Continue (st\<lparr>world := w1, parserMemory := m1,
                           lineNumber := lineNumber st + 1,
                           fileOffset := fileOffset st + int (length bytes)\<rparr>))
       \<and> (\<forall>w node path resp. resp \<in> set (fst (read x h w req node path (Some re))) \<longrightarrow>
            (\<forall>l \<in> set (Lines resp). re (Msg l)))"
proof (intro conjI allI impI ballI)
  fix resp l
  assume r: "resp \<in> set (search x h sched envs req)" and l: "l \<in> set (Lines resp)"
  have e: "search x h sched envs req = weave sched (fan_out envs
          (\<lambda>w node. searchNode x h w req node (Join (SrcFS node) (ReqPath req)) re)
          (filterSources (source h) (filterSourceMap req)))"
    using assms by (simp add: search_def)
  from r obtain q where q: "q \<in> set (fan_out envs
          (\<lambda>w node. searchNode x h w req node (Join (SrcFS node) (ReqPath req)) re)
          (filterSources (source h) (filterSourceMap req)))" "resp \<in> set q"
    unfolding e set_weave by blast
  from set_fan_out [OF q(1)] obtain i where
    i: "q = searchNode x h (envs i) req (filterSources (source h) (filterSourceMap req) ! i)
          (Join (SrcFS (filterSources (source h) (filterSourceMap req) ! i)) (ReqPath req)) re"
    by blast
  let ?node = "filterSources (source h) (filterSourceMap req) ! i"
  let ?P = "\<lambda>out. \<forall>r \<in> set out. \<forall>l \<in> set (Lines r). re (Msg l)"
  have "?P (snd (recurseTree h (searchNode_visit x h req ?node re)
      (Walk (SrcFS ?node) (Join (SrcFS ?node) (ReqPath req))) (envs i) []))"
  proof (rule recurseTree_inv)
    fix walker w' and a :: "Response list"
    assume a: "\<forall>r \<in> set a. \<forall>l \<in> set (Lines r). re (Msg l)"
    obtain rs w'' where rd: "read x h w' req ?node (wpath walker) (Some re) = (rs, w'')"
      by (cases "read x h w' req ?node (wpath walker) (Some re)")
    have "\<forall>r \<in> set rs. \<forall>l \<in> set (Lines r). re (Msg l)"
      using read_lines_match [of _ x h w' req ?node "wpath walker" re] rd by auto
    with a rd show "\<forall>r \<in> set (snd (searchNode_visit x h req ?node re walker w' a)).
        \<forall>l \<in> set (Lines r). re (Msg l)"
      by (auto simp: searchNode_visit_def)
  qed simp
  then have "?P q" unfolding i searchNode_def .
  with q(2) l show "re (Msg l)" by blast
next
  fix node path m bytes and st :: "'a scan_state" and w1 l0 m1
  assume "ctx_Err (world st) = (False, w1) \<and>
            parse h path bytes (parserMemory st) = (l0, m1) \<and> \<not> re (Msg l0)"
  then show "scan_body h req node path (Some re) m bytes st =
              Continue (st\<lparr>world := w1, parserMemory := m1,
                           lineNumber := lineNumber st + 1,
                           fileOffset := fileOffset st + int (length bytes)\<rparr>)"
    by (simp add: scan_body_def no_match_def)
next
  fix w node path resp l
  assume "resp \<in> set (fst (read x h w req node path (Some re)))" "l \<in> set (Lines resp)"
  then show "re (Msg l)" by (rule read_lines_match)
qed

text \<open>
  A search for \<open>second\<close> over the two sources: the second line of each file, with
  line number 2 and offset 5 (the length of the first line).
\<close>

theorem search_emits_matching_lines_only_witness:
  "list_all (\<lambda>resp. list_all (\<lambda>l. Msg l = ''second'') (Lines resp))
     (search fixture_extern (New zero_Config two_nodes raw_parse) [1, 0]
        (\<lambda>i. never_cancelled) good_search)
   \<and> search fixture_extern (New zero_Config two_nodes raw_parse) [] (\<lambda>i. never_cancelled) good_search
     = [lines_Response \<lparr>ID = 9, Action = ''search'', FS = ''node1'', Path = [''app.log'']\<rparr>
          [\<lparr>Msg = ''second'', Level = [], Time = None, LogFS = ''node1'', FileName = ''app.log'',
            Line = 2, Offset = 5\<rparr>],
        lines_Response \<lparr>ID = 9, Action = ''search'', FS = ''node2'', Path = [''app.log'']\<rparr>
          [\<lparr>Msg = ''second'', Level = [], Time = None, LogFS = ''node2'', FileName = ''app.log'',
            Line = 2, Offset = 5\<rparr>],
        lines_Response \<lparr>ID = 9, Action = ''search'', FS = ''node2'', Path = [''b.log'']\<rparr>
          [\<lparr>Msg = ''second'', Level = [], Time = None, LogFS = ''node2'', FileName = ''b.log'',
            Line = 2, Offset = 5\<rparr>]]"
proof -
  have c: "regexp_Compile fixture_extern (Regexp good_search) = Inr (\<lambda>msg. msg = ''second'')"
    by (simp add: good_search_def fixture_extern_def)
  note t = search_emits_matching_lines_only [OF c, THEN conjunct1,
      of "New zero_Config two_nodes raw_parse" "[1, 0]" "\<lambda>i. never_cancelled"]
  have e: "search fixture_extern (New zero_Config two_nodes raw_parse) [] (\<lambda>i. never_cancelled) good_search
     = [lines_Response \<lparr>ID = 9, Action = ''search'', FS = ''node1'', Path = [''app.log'']\<rparr>
          [\<lparr>Msg = ''second'', Level = [], Time = None, LogFS = ''node1'', FileName = ''app.log'',
            Line = 2, Offset = 5\<rparr>],
        lines_Response \<lparr>ID = 9, Action = ''search'', FS = ''node2'', Path = [''app.log'']\<rparr>
          [\<lparr>Msg = ''second'', Level = [], Time = None, LogFS = ''node2'', FileName = ''app.log'',
            Line = 2, Offset = 5\<rparr>],
        lines_Response \<lparr>ID = 9, Action = ''search'', FS = ''node2'', Path = [''b.log'']\<rparr>
          [\<lparr>Msg = ''second'', Level = [], Time = None, LogFS = ''node2'', FileName = ''b.log'',
            Line = 2, Offset = 5\<rparr>]]"
    by (simp add: search_def c fan_out_def filterSources_def searchNode_def searchNode_visit_def
        good_search_def fixture_request_def two_nodes_def New_zero_fields New_zero_maps
        files_fs_def ctx_Err_def never_cancelled_def filepath_Base_def filepath_Ext_def
        read_def time_Now_def scan_init_def scan_body_def maybe_flush_def flush_def
        read_Meta_def no_match_def filterOutTime_def raw_parse_def fixture_extern_def Let_def)
  from t have "list_all (\<lambda>resp. list_all (\<lambda>l. Msg l = ''second'') (Lines resp))
     (search fixture_extern (New zero_Config two_nodes raw_parse) [1, 0]
        (\<lambda>i. never_cancelled) good_search)"
    by (simp only: list_all_iff)
  with e show ?thesis by (rule conjI [rotated])
qed

text \<open>
  C9 (the tree cache). Two get-file-tree requests with the same base path and the
  same filter, the second served from the cache the first left (the entry has not
  expired in between): both send one response; the trees are equal, file by
  file and in the same order; the responses differ in the id only; the second
  request leaves the cache as it is, and neither the cached responses nor the
  files they point to are changed by it. When the first request had to build
  the tree, the entry it stored is the unfiltered merged tree.
\<close>

theorem tree_idempotent_while_cached:
  assumes "cache_ok cache s"
    and "ReqPath req2 = ReqPath req1"
    and "filterSourceMap req2 = filterSourceMap req1"
    and "serveTree x h sched1 envs1 req1 (cache, s) = (out1, cache1, s1)"
    and "serveTree x h sched2 envs2 req2 (cache1, s1) = (out2, cache2, s2)"
  shows "\<exists>r1 r2 a. out1 = [r1] \<and> out2 = [r2] \<and>
           tree s2 r2 = tree s1 r1 \<and>
           r2\<lparr>Files := []\<rparr> = with_ID req2 (r1\<lparr>Files := []\<rparr>) \<and>
           cache2 = cache1 \<and>
           cache1 (filepath_Join x (ReqPath req1)) = Some a \<and>
           (\<forall>k b. cache1 k = Some b \<longrightarrow>
              response_cells s2 ! b = response_cells s1 ! b \<and>
              tree s2 (response_cells s2 ! b) = tree s1 (response_cells s1 ! b)) \<and>
           (cache (filepath_Join x (ReqPath req1)) = None \<longrightarrow>
              tree s1 (response_cells s1 ! a) = merged_tree h sched1 envs1 req1)"
proof -
  let ?key = "filepath_Join x (ReqPath req1)"
  let ?F = "filterSourceMap req1"
  from serveTree_cache_ok [OF assms(1), of x h sched1 envs1 req1] assms(4)
  have ok1: "cache_ok cache1 s1" by auto
  obtain a r1 where
    a: "cache1 ?key = Some a" and o1: "out1 = [r1]" and
    t1: "tree s1 r1 = filter_tree ?F (tree s1 (response_cells s1 ! a))" and
    m1: "r1\<lparr>Files := []\<rparr> = with_ID req1 ((response_cells s1 ! a)\<lparr>Files := []\<rparr>)" and
    u1: "cache ?key = None \<longrightarrow> tree s1 (response_cells s1 ! a) = merged_tree h sched1 envs1 req1"
  proof (cases "cache ?key")
    case None
    let ?M = "merged_tree h sched1 envs1 req1"
    let ?R = "tree_Response req1 [length (file_cells s) ..< length (file_cells s) + length ?M]"
    from None serveTree_miss [where cache = cache and x = x and req = req1 and h = h
        and sched = sched1 and envs = envs1 and s = s]
    obtain fs K where
      e: "serveTree x h sched1 envs1 req1 (cache, s) =
            ([with_ID req1 (tree_Response req1 fs)],
             cache(?key \<mapsto> length (response_cells s)),
             \<lparr>response_cells = response_cells s @ [?R, with_ID req1 (tree_Response req1 fs)],
              file_cells = file_cells s @ ?M @ K\<rparr>)"
      and t: "map ((!) (file_cells s @ ?M @ K)) fs = filter_tree ?F ?M"
      by blast
    from e assms(4) have
      o: "out1 = [with_ID req1 (tree_Response req1 fs)]" and
      c: "cache1 = cache(?key \<mapsto> length (response_cells s))" and
      s: "s1 = \<lparr>response_cells = response_cells s @ [?R, with_ID req1 (tree_Response req1 fs)],
              file_cells = file_cells s @ ?M @ K\<rparr>"
      by simp_all
    have cell: "response_cells s1 ! length (response_cells s) = ?R" unfolding s by simp
    have tR: "tree s1 ?R = ?M"
      unfolding s using map_nth_append_upt2 [of "file_cells s" ?M K]
      by (simp add: tree_def tree_Response_def)
    have "tree s1 (with_ID req1 (tree_Response req1 fs)) = filter_tree ?F ?M"
      unfolding s using t by (simp add: tree_def tree_Response_def)
    moreover have "(with_ID req1 (tree_Response req1 fs))\<lparr>Files := []\<rparr>
        = with_ID req1 (?R\<lparr>Files := []\<rparr>)"
      by (simp add: with_ID_def tree_Response_def)
    moreover have "cache1 ?key = Some (length (response_cells s))" using c by simp
    ultimately show ?thesis
      using that [of "length (response_cells s)" "with_ID req1 (tree_Response req1 fs)"] o cell tR
      by simp
  next
    case (Some a)
    note cc = cache_ok_cell [OF assms(1) Some]
    let ?R = "response_cells s ! a"
    from Some cc(1,3) serveTree_hit [where cache = cache and x = x and req = req1 and h = h
        and sched = sched1 and envs = envs1 and s = s and a = a]
    obtain fs K where
      e: "serveTree x h sched1 envs1 req1 (cache, s) =
            ([with_ID req1 (?R\<lparr>Files := fs\<rparr>)], cache,
             \<lparr>response_cells = response_cells s @ [with_ID req1 (?R\<lparr>Files := fs\<rparr>)],
              file_cells = file_cells s @ K\<rparr>)"
      and t: "map ((!) (file_cells s @ K)) fs = filter_tree ?F (tree s ?R)"
      by blast
    from e assms(4) have
      o: "out1 = [with_ID req1 (?R\<lparr>Files := fs\<rparr>)]" and
      c: "cache1 = cache" and
      s: "s1 = \<lparr>response_cells = response_cells s @ [with_ID req1 (?R\<lparr>Files := fs\<rparr>)],
              file_cells = file_cells s @ K\<rparr>"
      by simp_all
    have cell: "response_cells s1 ! a = ?R" unfolding s using cc(1) by (simp add: nth_append)
    have tR: "tree s1 ?R = tree s ?R" unfolding s using cc(3) by (rule tree_append)
    have "tree s1 (with_ID req1 (?R\<lparr>Files := fs\<rparr>)) = filter_tree ?F (tree s ?R)"
      unfolding s using t by (simp add: tree_def)
    moreover have "(with_ID req1 (?R\<lparr>Files := fs\<rparr>))\<lparr>Files := []\<rparr> = with_ID req1 (?R\<lparr>Files := []\<rparr>)"
      by (simp add: with_ID_def)
    moreover have "cache1 ?key = Some a" using c Some by simp
    ultimately show ?thesis
      using that [of a "with_ID req1 (?R\<lparr>Files := fs\<rparr>)"] o cell tR Some
      by simp
  qed
  have a2: "cache1 (filepath_Join x (ReqPath req2)) = Some a" using a assms(2) by simp
  note cc = cache_ok_cell [OF ok1 a]
  let ?R = "response_cells s1 ! a"
  from a2 cc(1,3) serveTree_hit [where cache = cache1 and x = x and req = req2 and h = h
      and sched = sched2 and envs = envs2 and s = s1 and a = a]
  obtain fs K where
    e: "serveTree x h sched2 envs2 req2 (cache1, s1) =
          ([with_ID req2 (?R\<lparr>Files := fs\<rparr>)], cache1,
           \<lparr>response_cells = response_cells s1 @ [with_ID req2 (?R\<lparr>Files := fs\<rparr>)],
            file_cells = file_cells s1 @ K\<rparr>)"
    and t: "map ((!) (file_cells s1 @ K)) fs = filter_tree (filterSourceMap req2) (tree s1 ?R)"
    by blast
  from e assms(5) have
    o2: "out2 = [with_ID req2 (?R\<lparr>Files := fs\<rparr>)]" and
    c2: "cache2 = cache1" and
    s2: "s2 = \<lparr>response_cells = response_cells s1 @ [with_ID req2 (?R\<lparr>Files := fs\<rparr>)],
            file_cells = file_cells s1 @ K\<rparr>"
    by simp_all
  have t2: "tree s2 (with_ID req2 (?R\<lparr>Files := fs\<rparr>)) = tree s1 r1"
    unfolding s2 t1 using t assms(3) by (simp add: tree_def)
  have m2: "(with_ID req2 (?R\<lparr>Files := fs\<rparr>))\<lparr>Files := []\<rparr> = with_ID req2 (r1\<lparr>Files := []\<rparr>)"
    unfolding m1 by (simp add: with_ID_def)
  have keep: "response_cells s2 ! b = response_cells s1 ! b \<and>
      tree s2 (response_cells s2 ! b) = tree s1 (response_cells s1 ! b)"
    if b: "cache1 k = Some b" for k b
  proof -
    note cb = cache_ok_cell [OF ok1 b]
    have 1: "response_cells s2 ! b = response_cells s1 ! b"
      unfolding s2 using cb(1) by (simp add: nth_append)
    have "tree s2 (response_cells s1 ! b) = tree s1 (response_cells s1 ! b)"
      unfolding s2 using cb(3) by (rule tree_append)
    with 1 show ?thesis by simp
  qed
  have keep': "\<forall>k b. cache1 k = Some b \<longrightarrow>
      response_cells s2 ! b = response_cells s1 ! b \<and>
      tree s2 (response_cells s2 ! b) = tree s1 (response_cells s1 ! b)"
    by (intro allI impI) (rule keep)
  show ?thesis
    by (rule exI [of _ r1], rule exI [of _ "with_ID req2 (?R\<lparr>Files := fs\<rparr>)"],
        rule exI [of _ a], intro conjI)
       (fact o1 o2 t2 m2 c2 a keep' u1)+
qed

text \<open>
  The first request (id 9) builds the tree, the second (id 10) is served from
  the cache.
\<close>

theorem tree_idempotent_while_cached_witness:
  "\<exists>r1 r2.
     fst (serveTree fixture_extern (New zero_Config two_nodes raw_parse) [1, 0]
            (\<lambda>i. never_cancelled) (Init (tree_request [''node2''])) (Map.empty, empty_store)) = [r1] \<and>
     fst (serveTree fixture_extern (New zero_Config two_nodes raw_parse) [] (\<lambda>i. cancelled_after 0)
            ((Init (tree_request [''node2'']))\<lparr>ReqMeta := \<lparr>ID = 10, Action = ''get-file-tree'', FS = [], Path = []\<rparr>\<rparr>)
            (snd (serveTree fixture_extern (New zero_Config two_nodes raw_parse) [1, 0]
                    (\<lambda>i. never_cancelled) (Init (tree_request [''node2''])) (Map.empty, empty_store)))) = [r2] \<and>
     tree (snd (snd (serveTree fixture_extern (New zero_Config two_nodes raw_parse) [] (\<lambda>i. cancelled_after 0)
            ((Init (tree_request [''node2'']))\<lparr>ReqMeta := \<lparr>ID = 10, Action = ''get-file-tree'', FS = [], Path = []\<rparr>\<rparr>)
            (snd (serveTree fixture_extern (New zero_Config two_nodes raw_parse) [1, 0]
                    (\<lambda>i. never_cancelled) (Init (tree_request [''node2''])) (Map.empty, empty_store)))))) r2
       = tree (snd (snd (serveTree fixture_extern (New zero_Config two_nodes raw_parse) [1, 0]
                    (\<lambda>i. never_cancelled) (Init (tree_request [''node2''])) (Map.empty, empty_store)))) r1 \<and>
     ID (Meta r1) = 9 \<and> ID (Meta r2) = 10 \<and>
     r2\<lparr>Files := []\<rparr> = r1\<lparr>Files := [], Meta := (Meta r1)\<lparr>ID := 10\<rparr>\<rparr>"
proof -
  let ?h = "New zero_Config two_nodes raw_parse :: unit handler"
  let ?req1 = "Init (tree_request [''node2''])"
  let ?req2 = "?req1\<lparr>ReqMeta := \<lparr>ID = 10, Action = ''get-file-tree'', FS = [], Path = []\<rparr>\<rparr>"
  let ?first = "serveTree fixture_extern ?h [1, 0] (\<lambda>i. never_cancelled) ?req1 (Map.empty, empty_store)"
  let ?second = "serveTree fixture_extern ?h [] (\<lambda>i. cancelled_after 0) ?req2 (snd ?first)"
  have p1: "?first = (fst ?first, fst (snd ?first), snd (snd ?first))" by simp
  have p2: "serveTree fixture_extern ?h [] (\<lambda>i. cancelled_after 0) ?req2 (fst (snd ?first), snd (snd ?first))
      = (fst ?second, fst (snd ?second), snd (snd ?second))" by simp
  have a: "ReqPath ?req2 = ReqPath ?req1" by simp
  have b: "filterSourceMap ?req2 = filterSourceMap ?req1" by simp
  from tree_idempotent_while_cached [OF cache_ok_empty a b p1 p2]
  obtain r1 r2 where
    o1: "fst ?first = [r1]" and o2: "fst ?second = [r2]" and
    t: "tree (snd (snd ?second)) r2 = tree (snd (snd ?first)) r1" and
    m: "r2\<lparr>Files := []\<rparr> = with_ID ?req2 (r1\<lparr>Files := []\<rparr>)"
    by (elim exE conjE)
  have m0: "Map.empty (filepath_Join fixture_extern (ReqPath ?req1)) = None" by simp
  from serveTree_miss [where cache = Map.empty and x = fixture_extern and req = ?req1 and h = ?h
      and sched = "[1, 0]" and envs = "\<lambda>i. never_cancelled" and s = empty_store, OF m0]
  obtain fs K where
    e: "?first =
            ([with_ID ?req1 (tree_Response ?req1 fs)],
             Map.empty(filepath_Join fixture_extern (ReqPath ?req1) \<mapsto> length (response_cells empty_store)),
             \<lparr>response_cells = response_cells empty_store @
                [tree_Response ?req1 [length (file_cells empty_store) ..<
                    length (file_cells empty_store) +
                    length (merged_tree ?h [1, 0] (\<lambda>i. never_cancelled) ?req1)],
                 with_ID ?req1 (tree_Response ?req1 fs)],
              file_cells = file_cells empty_store @
                merged_tree ?h [1, 0] (\<lambda>i. never_cancelled) ?req1 @ K\<rparr>)"
    by (elim exE conjE)
  have "fst ?first = [with_ID ?req1 (tree_Response ?req1 fs)]" unfolding e by simp
  with o1 have "r1 = with_ID ?req1 (tree_Response ?req1 fs)" by simp
  then have i1: "ID (Meta r1) = 9"
    by (simp add: with_ID_def tree_Response_def Init_fields tree_request_def)
  have i2: "ID (Meta r2) = 10"
  proof -
    have "ID (Meta (r2\<lparr>Files := []\<rparr>)) = 10" unfolding m by (simp add: with_ID_def)
    then show ?thesis by simp
  qed
  have m': "r2\<lparr>Files := []\<rparr> = r1\<lparr>Files := [], Meta := (Meta r1)\<lparr>ID := 10\<rparr>\<rparr>"
    unfolding m by (simp add: with_ID_def)
  show ?thesis
    by (rule exI [of _ r1], rule exI [of _ r2], intro conjI) (fact o1 o2 t i1 i2 m')+
qed

text \<open>
  C10 (lines dropped by the time filter). A line that passes the regexp test and
  is dropped by the time filter leaves the line number, the offset, the batch and
  the output as they were: only the parser memory and the environment move. The
  next line that is kept is therefore stamped with the line number and the offset
  the loop had at the dropped line. For a get-content the emitted line numbers
  are 1, 2, 3, ... whatever was dropped in between.
\<close>

theorem time_drop_keeps_counters:
  assumes "ctx_Err (world st) = (False, w1)"
    and "parse h path b1 (parserMemory st) = (l1, m1)"
    and "\<not> no_match re l1"
    and "filterOutTime l1 (FilterTime req)"
  shows "scan_body h req node path re m b1 st = Continue (st\<lparr>world := w1, parserMemory := m1\<rparr>)
       \<and> (\<forall>b2 w2 l2 m2.
            ctx_Err w1 = (False, w2) \<and> parse h path b2 m1 = (l2, m2) \<and> \<not> no_match re l2 \<and>
            \<not> filterOutTime l2 (FilterTime req) \<longrightarrow>
            emitted (ctl_state (scan_body h req node path re m b2 (st\<lparr>world := w1, parserMemory := m1\<rparr>)))
              = emitted st @ [l2\<lparr>FileName := path, Offset := fileOffset st,
                                 LogFS := Name node, Line := lineNumber st\<rparr>])
       \<and> (\<forall>x w i. i < length (lines_of (fst (read x h w req node path None))) \<longrightarrow>
            Line (lines_of (fst (read x h w req node path None)) ! i) = 1 + int i)"
proof (intro conjI allI impI)
  show "scan_body h req node path re m b1 st = Continue (st\<lparr>world := w1, parserMemory := m1\<rparr>)"
    using assms by (simp add: scan_body_def filterOutTime_stamp)
next
  fix b2 w2 l2 m2
  assume a: "ctx_Err w1 = (False, w2) \<and> parse h path b2 m1 = (l2, m2) \<and> \<not> no_match re l2 \<and>
            \<not> filterOutTime l2 (FilterTime req)"
  let ?st1 = "st\<lparr>world := w1, parserMemory := m1\<rparr>"
  let ?st2 = "?st1\<lparr>world := w2, parserMemory := m2,
                   logLines := logLines ?st1 @ [l2\<lparr>FileName := path, Offset := fileOffset ?st1,
                                 LogFS := Name node, Line := lineNumber ?st1\<rparr>],
                   lineNumber := lineNumber ?st1 + 1,
                   fileOffset := fileOffset ?st1 + int (length b2)\<rparr>"
  have "ctl_state (scan_body h req node path re m b2 ?st1) = maybe_flush h m ?st2"
    using a by (simp add: scan_body_def filterOutTime_stamp Let_def)
  then show "emitted (ctl_state (scan_body h req node path re m b2 ?st1))
              = emitted st @ [l2\<lparr>FileName := path, Offset := fileOffset st,
                                 LogFS := Name node, Line := lineNumber st\<rparr>]"
    by (simp add: maybe_flush_fields) (simp add: emitted_def)
next
  fix x w i
  let ?ls = "lines_of (fst (read x h w req node path None))"
  assume i: "i < length ?ls"
  have p: "prefix ?ls (file_lines x h req node path None)" by (rule read_prefix)
  then have "i < length (file_lines x h req node path None)" using i prefix_length_le by fastforce
  then show "Line (?ls ! i) = 1 + int i"
    using prefix_nth [OF p i] file_lines_numbered by metis
qed

text \<open>
  A file whose first line (time 3) is dropped by \<open>start = 4\<close>: the second line
  of the file is emitted with line number 1 and offset 0.
\<close>

theorem time_drop_keeps_counters_witness:
  "scan_body (New zero_Config [fixture_node old_then_new] timed_parse) since_4
      (fixture_node old_then_new) ''app.log'' None
      \<lparr>ID = 9, Action = ''get-content'', FS = ''node1'', Path = [''app.log'']\<rparr> ''old''
      (scan_init fixture_extern 0 never_cancelled)
    = Continue (scan_init fixture_extern 0 never_cancelled)
   \<and> lines_of (fst (read fixture_extern (New zero_Config [fixture_node old_then_new] timed_parse)
        never_cancelled since_4 (fixture_node old_then_new) ''app.log'' None))
    = [\<lparr>Msg = ''newer'', Level = [], Time = Some 5, LogFS = ''node1'', FileName = ''app.log'',
        Line = 1, Offset = 0\<rparr>]"
proof -
  let ?h = "New zero_Config [fixture_node old_then_new] timed_parse :: unit handler"
  let ?st = "scan_init fixture_extern 0 never_cancelled"
  have 1: "ctx_Err (world ?st) = (False, never_cancelled)"
    by (simp add: scan_init_def ctx_Err_def never_cancelled_def)
  have 2: "parse ?h ''app.log'' ''old'' (parserMemory ?st)
      = (\<lparr>Msg = ''old'', Level = [], Time = Some 3, LogFS = [], FileName = [], Line = 0, Offset = 0\<rparr>, ())"
    by (simp add: New_zero_fields timed_parse_def)
  have 3: "\<not> no_match None \<lparr>Msg = ''old'', Level = [], Time = Some 3, LogFS = [], FileName = [], Line = 0, Offset = 0\<rparr>"
    by (simp add: no_match_def)
  have 4: "filterOutTime \<lparr>Msg = ''old'', Level = [], Time = Some 3, LogFS = [], FileName = [], Line = 0, Offset = 0\<rparr>
      (FilterTime since_4)"
    by (simp add: filterOutTime_def since_4_def)
  have "scan_body ?h since_4 (fixture_node old_then_new) ''app.log'' None
      \<lparr>ID = 9, Action = ''get-content'', FS = ''node1'', Path = [''app.log'']\<rparr> ''old'' ?st
    = Continue ?st"
    using time_drop_keeps_counters [OF 1 2 3 4, THEN conjunct1] by (simp add: scan_init_def)
  moreover have "lines_of (fst (read fixture_extern ?h never_cancelled since_4
        (fixture_node old_then_new) ''app.log'' None))
    = [\<lparr>Msg = ''newer'', Level = [], Time = Some 5, LogFS = ''node1'', FileName = ''app.log'',
        Line = 1, Offset = 0\<rparr>]"
    by (simp add: read_eval old_then_new_def since_4_def)
  ultimately show ?thesis by blast
qed

end
